theory Spec2Isabelle
  imports Main "HOL-Library.Monad_Syntax" "HOL-Library.Multiset"
begin

section \<open>Arrays, candidates and the sorting routines of the standard library\<close>

text \<open>
  The kernel \<^verbatim>\<open>sparse_dot_topn_source.cpp\<close> works on raw C arrays and on
  \<^verbatim>\<open>std::vector\<close>s, indexed by \<^verbatim>\<open>int\<close>. An array is a list; an index is an
  \<open>int\<close>. Reading or writing outside an array is undefined behaviour in C++: the model
  returns \<open>None\<close> there, and every function that touches an array is in the option monad.
  The \<^verbatim>\<open>int\<close> counters are unbounded here: they count entries of arrays that an
  \<^verbatim>\<open>int\<close> indexes, and signed overflow would be undefined behaviour as well.

  The type \<open>'v\<close> stands for \<^verbatim>\<open>double\<close>. The functions use only \<open>0\<close>, \<open>+\<close>, \<open>*\<close> and the
  comparison \<open>>\<close> of it; which laws a theorem needs of them is visible in its sort constraint.
\<close>

definition rd :: "'a list \<Rightarrow> int \<Rightarrow> 'a option" where
  "rd xs i = (if 0 \<le> i \<and> i < int (length xs) then Some (xs ! nat i) else None)"

definition wr :: "'a list \<Rightarrow> int \<Rightarrow> 'a \<Rightarrow> 'a list option" where
  "wr xs i v = (if 0 \<le> i \<and> i < int (length xs) then Some (xs[nat i := v]) else None)"

text \<open>
  Modelled from the spec: the struct \<^verbatim>\<open>candidate\<close> is declared in the header
  \<^verbatim>\<open>sparse_dot_topn_source.h\<close>, which is not among the sources. The specification
  describes a candidate as a (column index, value) pair, and the kernel reads and writes
  its fields \<^verbatim>\<open>index\<close> (an \<^verbatim>\<open>int\<close>) and \<^verbatim>\<open>value\<close> (a \<^verbatim>\<open>double\<close>). The field
  \<^verbatim>\<open>value\<close> is \<open>val\<close> here, and the variables \<^verbatim>\<open>next\<close> and \<^verbatim>\<open>length\<close> of the kernel are
  \<open>next'\<close> and \<open>length'\<close>: the plain names are taken in Isabelle.
\<close>

record 'v candidate =
  index :: int
  val :: 'v

definition candidate_cmp :: "'v::ord candidate \<Rightarrow> 'v candidate \<Rightarrow> bool" where
  "candidate_cmp c_i c_j \<longleftrightarrow> val c_i > val c_j"

text \<open>
  \<^verbatim>\<open>std::sort\<close> and \<^verbatim>\<open>std::partial_sort\<close> belong to the C++ standard library, not to
  this repository, and the standard leaves the order of equivalent elements open. They are
  parameters \<open>srt\<close> and \<open>psrt\<close> of the model, and the theorems assume what the standard
  promises. \<open>srt xs\<close> is \<^verbatim>\<open>std::sort(begin, end, candidate_cmp)\<close>: a permutation of \<open>xs\<close>
  in which no element is \<open>candidate_cmp\<close>-before an earlier one. \<open>psrt n xs\<close> is
  \<^verbatim>\<open>std::partial_sort(begin, begin + n, end, candidate_cmp)\<close>: a permutation of \<open>xs\<close>
  whose first \<open>n\<close> entries are sorted and come \<open>candidate_cmp\<close>-no-later than all the others.
\<close>

definition ordered :: "'v::ord candidate list \<Rightarrow> bool" where
  "ordered xs \<longleftrightarrow> sorted_wrt (\<lambda>a b. \<not> candidate_cmp b a) xs"

definition std_sort :: "('v::ord candidate list \<Rightarrow> 'v candidate list) \<Rightarrow> bool" where
  "std_sort srt \<longleftrightarrow> (\<forall>xs. mset (srt xs) = mset xs \<and> ordered (srt xs))"

definition std_partial_sort :: "(nat \<Rightarrow> 'v::ord candidate list \<Rightarrow> 'v candidate list) \<Rightarrow> bool" where
  "std_partial_sort psrt \<longleftrightarrow>
     (\<forall>n xs. n \<le> length xs \<longrightarrow>
        mset (psrt n xs) = mset xs \<and> ordered (take n (psrt n xs)) \<and>
        (\<forall>a \<in> set (take n (psrt n xs)). \<forall>b \<in> set (drop n (psrt n xs)). \<not> candidate_cmp b a))"

section \<open>The loops shared by the two multiplying entry points\<close>

text \<open>
  Lines 81-98 (and, letter for letter, 192-209): the multiply-accumulate loops of one row.
  The loop state is \<open>(next, sums, head, length)\<close>.
\<close>

type_synonym 'v acc = "int list \<times> 'v list \<times> int \<times> int"

fun kk_body :: "int list \<Rightarrow> 'v list \<Rightarrow> 'v \<Rightarrow> int \<Rightarrow> 'v::{plus,times} acc \<Rightarrow> 'v acc option" where
  "kk_body Bj Bx v kk (next', sums, head, length') =
     do {
       k \<leftarrow> rd Bj kk;
       b \<leftarrow> rd Bx kk;
       s \<leftarrow> rd sums k;
       sums \<leftarrow> wr sums k (s + v * b);
       n \<leftarrow> rd next' k;
       if n = - 1 then
         do {
           next' \<leftarrow> wr next' k head;
           Some (next', sums, k, length' + 1)
         }
       else Some (next', sums, head, length')
     }"

function kk_loop ::
  "int list \<Rightarrow> 'v list \<Rightarrow> 'v \<Rightarrow> int \<Rightarrow> int \<Rightarrow> 'v::{plus,times} acc \<Rightarrow> 'v acc option" where
  "kk_loop Bj Bx v kk kk_end st =
     (if kk < kk_end then
        do { st \<leftarrow> kk_body Bj Bx v kk st; kk_loop Bj Bx v (kk + 1) kk_end st }
      else Some st)"
  by pat_completeness auto
termination
  by (relation "measure (\<lambda>(Bj, Bx, v, kk, kk_end, st). nat (kk_end - kk))") auto

declare kk_loop.simps [simp del]

definition jj_body ::
  "int list \<Rightarrow> 'v list \<Rightarrow> int list \<Rightarrow> int list \<Rightarrow> 'v list \<Rightarrow> int \<Rightarrow> 'v::{plus,times} acc \<Rightarrow> 'v acc option" where
  "jj_body Aj Ax Bp Bj Bx jj st =
     do {
       j \<leftarrow> rd Aj jj;
       v \<leftarrow> rd Ax jj;
       kk_start \<leftarrow> rd Bp j;
       kk_end \<leftarrow> rd Bp (j + 1);
       kk_loop Bj Bx v kk_start kk_end st
     }"

function jj_loop ::
  "int list \<Rightarrow> 'v list \<Rightarrow> int list \<Rightarrow> int list \<Rightarrow> 'v list \<Rightarrow> int \<Rightarrow> int \<Rightarrow> 'v::{plus,times} acc \<Rightarrow> 'v acc option" where
  "jj_loop Aj Ax Bp Bj Bx jj jj_end st =
     (if jj < jj_end then
        do { st \<leftarrow> jj_body Aj Ax Bp Bj Bx jj st; jj_loop Aj Ax Bp Bj Bx (jj + 1) jj_end st }
      else Some st)"
  by pat_completeness auto
termination
  by (relation "measure (\<lambda>(Aj, Ax, Bp, Bj, Bx, jj, jj_end, st). nat (jj_end - jj))") auto

declare jj_loop.simps [simp del]

text \<open>
  Lines 79-98: \<^verbatim>\<open>head = -2; length = 0\<close>, the bounds of row \<open>i\<close> of \<open>A\<close>, and the loops.
\<close>

definition accumulate ::
  "int list \<Rightarrow> int list \<Rightarrow> 'v list \<Rightarrow> int list \<Rightarrow> int list \<Rightarrow> 'v list \<Rightarrow> int \<Rightarrow>
   int list \<Rightarrow> 'v::{plus,times} list \<Rightarrow> 'v acc option" where
  "accumulate Ap Aj Ax Bp Bj Bx i next' sums =
     do {
       jj_start \<leftarrow> rd Ap i;
       jj_end \<leftarrow> rd Ap (i + 1);
       jj_loop Aj Ax Bp Bj Bx jj_start jj_end (next', sums, - 2, 0)
     }"

text \<open>
  Lines 100-114 (and 212-226): the walk along the chain, \<open>length\<close> steps from \<open>head\<close>. A
  column whose sum is above \<open>lower_bound\<close> is pushed onto \<open>candidates\<close>; every visited
  column is cleared. The loop state is \<open>(next, sums, head, candidates)\<close>.
\<close>

type_synonym 'v fin = "int list \<times> 'v list \<times> int \<times> 'v candidate list"

fun finalize_body :: "'v \<Rightarrow> 'v::{zero,ord} fin \<Rightarrow> 'v fin option" where
  "finalize_body lower_bound (next', sums, head, candidates) =
     do {
       s \<leftarrow> rd sums head;
       let candidates =
         (if s > lower_bound then candidates @ [\<lparr>index = head, val = s\<rparr>] else candidates);
       let temp = head;
       head \<leftarrow> rd next' head;
       next' \<leftarrow> wr next' temp (- 1);
       sums \<leftarrow> wr sums temp 0;
       Some (next', sums, head, candidates)
     }"

function finalize_loop :: "'v \<Rightarrow> int \<Rightarrow> int \<Rightarrow> 'v::{zero,ord} fin \<Rightarrow> 'v fin option" where
  "finalize_loop lower_bound jj length' st =
     (if jj < length' then
        do { st \<leftarrow> finalize_body lower_bound st; finalize_loop lower_bound (jj + 1) length' st }
      else Some st)"
  by pat_completeness auto
termination
  by (relation "measure (\<lambda>(lower_bound, jj, length', st). nat (length' - jj))") auto

declare finalize_loop.simps [simp del]

text \<open>
  Lines 116-122 (and 228-234): the choice between the partial and the full sort. It yields
  the rearranged \<open>candidates\<close> and \<open>len\<close>. \<^verbatim>\<open>std::partial_sort\<close> needs its middle iterator
  inside the range: with \<open>ntop < 0\<close> the call is undefined.
\<close>

definition select_topn ::
  "('v candidate list \<Rightarrow> 'v candidate list) \<Rightarrow> (nat \<Rightarrow> 'v candidate list \<Rightarrow> 'v candidate list) \<Rightarrow>
   int \<Rightarrow> 'v candidate list \<Rightarrow> ('v candidate list \<times> int) option" where
  "select_topn srt psrt ntop candidates =
     (let len = int (length candidates) in
      if len > ntop then
        (if ntop < 0 then None else Some (psrt (nat ntop) candidates, ntop))
      else Some (srt candidates, len))"

text \<open>
  Lines 124-128 (and 236-240): the selected candidates go to \<open>Cj\<close> and \<open>Cx\<close> at \<open>nnz\<close>. The
  loop state is \<open>(Cj, Cx, nnz)\<close>.
\<close>

function write_loop ::
  "'v candidate list \<Rightarrow> int \<Rightarrow> int \<Rightarrow> int list \<times> 'v list \<times> int \<Rightarrow> (int list \<times> 'v list \<times> int) option" where
  "write_loop candidates a len (Cj, Cx, nnz) =
     (if a < len then
        do {
          c \<leftarrow> rd candidates a;
          Cj \<leftarrow> wr Cj nnz (index c);
          Cx \<leftarrow> wr Cx nnz (val c);
          write_loop candidates (a + 1) len (Cj, Cx, nnz + 1)
        }
      else Some (Cj, Cx, nnz))"
  by pat_completeness auto
termination
  by (relation "measure (\<lambda>(candidates, a, len, st). nat (len - a))") auto

declare write_loop.simps [simp del]

section \<open>\<^verbatim>\<open>sparse_dot_topn_source\<close>\<close>

text \<open>
  The state of the row loop is \<open>(next, sums, candidates, nnz, Cp, Cj, Cx)\<close>; \<open>topn_row\<close> is
  the body of the loop of line 75, \<open>topn_rows\<close> the loop.
\<close>

type_synonym 'v topn_state =
  "int list \<times> 'v list \<times> 'v candidate list \<times> int \<times> int list \<times> int list \<times> 'v list"

fun topn_row ::
  "('v candidate list \<Rightarrow> 'v candidate list) \<Rightarrow> (nat \<Rightarrow> 'v candidate list \<Rightarrow> 'v candidate list) \<Rightarrow>
   int list \<Rightarrow> int list \<Rightarrow> 'v list \<Rightarrow> int list \<Rightarrow> int list \<Rightarrow> 'v list \<Rightarrow> int \<Rightarrow> 'v \<Rightarrow> int \<Rightarrow>
   'v::{zero,plus,times,ord} topn_state \<Rightarrow> 'v topn_state option" where
  "topn_row srt psrt Ap Aj Ax Bp Bj Bx ntop lower_bound i (next', sums, candidates, nnz, Cp, Cj, Cx) =
     do {
       (next', sums, head, length') \<leftarrow> accumulate Ap Aj Ax Bp Bj Bx i next' sums;
       (next', sums, head, candidates) \<leftarrow>
         finalize_loop lower_bound 0 length' (next', sums, head, candidates);
       (candidates, len) \<leftarrow> select_topn srt psrt ntop candidates;
       (Cj, Cx, nnz) \<leftarrow> write_loop candidates 0 len (Cj, Cx, nnz);
       let candidates = [];
       Cp \<leftarrow> wr Cp (i + 1) nnz;
       Some (next', sums, candidates, nnz, Cp, Cj, Cx)
     }"

function topn_rows ::
  "('v candidate list \<Rightarrow> 'v candidate list) \<Rightarrow> (nat \<Rightarrow> 'v candidate list \<Rightarrow> 'v candidate list) \<Rightarrow>
   int list \<Rightarrow> int list \<Rightarrow> 'v list \<Rightarrow> int list \<Rightarrow> int list \<Rightarrow> 'v list \<Rightarrow> int \<Rightarrow> 'v \<Rightarrow> int \<Rightarrow> int \<Rightarrow>
   'v::{zero,plus,times,ord} topn_state \<Rightarrow> 'v topn_state option" where
  "topn_rows srt psrt Ap Aj Ax Bp Bj Bx ntop lower_bound i n_row st =
     (if i < n_row then
        do {
          st \<leftarrow> topn_row srt psrt Ap Aj Ax Bp Bj Bx ntop lower_bound i st;
          topn_rows srt psrt Ap Aj Ax Bp Bj Bx ntop lower_bound (i + 1) n_row st
        }
      else Some st)"
  by pat_completeness auto
termination
  by (relation "measure (\<lambda>(srt, psrt, Ap, Aj, Ax, Bp, Bj, Bx, ntop, lower_bound, i, n_row, st).
        nat (n_row - i))") auto

declare topn_rows.simps [simp del]

text \<open>
  Lines 66-73: the scratch vectors of size \<open>n_col\<close> (a negative size makes the vector's
  constructor fail), the empty \<open>candidates\<close>, \<open>nnz = 0\<close> and \<open>Cp[0] = 0\<close>.
\<close>

definition topn_init ::
  "int \<Rightarrow> int list \<Rightarrow> int list \<Rightarrow> 'v list \<Rightarrow> 'v::zero topn_state option" where
  "topn_init n_col Cp Cj Cx =
     (if n_col < 0 then None
      else do {
        let next' = replicate (nat n_col) (- 1);
        let sums = replicate (nat n_col) 0;
        let candidates = [];
        let nnz = 0;
        Cp \<leftarrow> wr Cp 0 0;
        Some (next', sums, candidates, nnz, Cp, Cj, Cx)
      })"

definition sparse_dot_topn_source ::
  "('v candidate list \<Rightarrow> 'v candidate list) \<Rightarrow> (nat \<Rightarrow> 'v candidate list \<Rightarrow> 'v candidate list) \<Rightarrow>
   int \<Rightarrow> int \<Rightarrow> int list \<Rightarrow> int list \<Rightarrow> 'v list \<Rightarrow> int list \<Rightarrow> int list \<Rightarrow> 'v list \<Rightarrow> int \<Rightarrow> 'v \<Rightarrow>
   int list \<Rightarrow> int list \<Rightarrow> 'v::{zero,plus,times,ord} list \<Rightarrow> (int list \<times> int list \<times> 'v list) option" where
  "sparse_dot_topn_source srt psrt n_row n_col Ap Aj Ax Bp Bj Bx ntop lower_bound Cp Cj Cx =
     do {
       st \<leftarrow> topn_init n_col Cp Cj Cx;
       (next', sums, candidates, nnz, Cp, Cj, Cx) \<leftarrow>
         topn_rows srt psrt Ap Aj Ax Bp Bj Bx ntop lower_bound 0 n_row st;
       Some (Cp, Cj, Cx)
     }"

section \<open>\<^verbatim>\<open>sparse_dot_plus_minmax_topn_source\<close>\<close>

text \<open>
  The row loop of line 186 is the row loop of line 75 with one more statement, line 210,
  between the accumulation and the walk. The state carries \<open>minmax_ntop\<close> in front.
\<close>

fun plus_row ::
  "('v candidate list \<Rightarrow> 'v candidate list) \<Rightarrow> (nat \<Rightarrow> 'v candidate list \<Rightarrow> 'v candidate list) \<Rightarrow>
   int list \<Rightarrow> int list \<Rightarrow> 'v list \<Rightarrow> int list \<Rightarrow> int list \<Rightarrow> 'v list \<Rightarrow> int \<Rightarrow> 'v \<Rightarrow> int \<Rightarrow>
   int \<times> 'v::{zero,plus,times,ord} topn_state \<Rightarrow> (int \<times> 'v topn_state) option" where
  "plus_row srt psrt Ap Aj Ax Bp Bj Bx ntop lower_bound i
       (minmax_ntop, next', sums, candidates, nnz, Cp, Cj, Cx) =
     do {
       (next', sums, head, length') \<leftarrow> accumulate Ap Aj Ax Bp Bj Bx i next' sums;
       let minmax_ntop = (if length' > minmax_ntop then length' else minmax_ntop);
       (next', sums, head, candidates) \<leftarrow>
         finalize_loop lower_bound 0 length' (next', sums, head, candidates);
       (candidates, len) \<leftarrow> select_topn srt psrt ntop candidates;
       (Cj, Cx, nnz) \<leftarrow> write_loop candidates 0 len (Cj, Cx, nnz);
       let candidates = [];
       Cp \<leftarrow> wr Cp (i + 1) nnz;
       Some (minmax_ntop, next', sums, candidates, nnz, Cp, Cj, Cx)
     }"

function plus_rows ::
  "('v candidate list \<Rightarrow> 'v candidate list) \<Rightarrow> (nat \<Rightarrow> 'v candidate list \<Rightarrow> 'v candidate list) \<Rightarrow>
   int list \<Rightarrow> int list \<Rightarrow> 'v list \<Rightarrow> int list \<Rightarrow> int list \<Rightarrow> 'v list \<Rightarrow> int \<Rightarrow> 'v \<Rightarrow> int \<Rightarrow> int \<Rightarrow>
   int \<times> 'v::{zero,plus,times,ord} topn_state \<Rightarrow> (int \<times> 'v topn_state) option" where
  "plus_rows srt psrt Ap Aj Ax Bp Bj Bx ntop lower_bound i n_row st =
     (if i < n_row then
        do {
          st \<leftarrow> plus_row srt psrt Ap Aj Ax Bp Bj Bx ntop lower_bound i st;
          plus_rows srt psrt Ap Aj Ax Bp Bj Bx ntop lower_bound (i + 1) n_row st
        }
      else Some st)"
  by pat_completeness auto
termination
  by (relation "measure (\<lambda>(srt, psrt, Ap, Aj, Ax, Bp, Bj, Bx, ntop, lower_bound, i, n_row, st).
        nat (n_row - i))") auto

declare plus_rows.simps [simp del]

text \<open>Lines 175-184: the set-up of line 66-73, and \<^verbatim>\<open>*minmax_ntop = 0\<close>.\<close>

definition plus_init ::
  "int \<Rightarrow> int list \<Rightarrow> int list \<Rightarrow> 'v list \<Rightarrow> (int \<times> 'v::zero topn_state) option" where
  "plus_init n_col Cp Cj Cx =
     (if n_col < 0 then None
      else do {
        let next' = replicate (nat n_col) (- 1);
        let sums = replicate (nat n_col) 0;
        let candidates = [];
        let nnz = 0;
        Cp \<leftarrow> wr Cp 0 0;
        let minmax_ntop = 0;
        Some (minmax_ntop, next', sums, candidates, nnz, Cp, Cj, Cx)
      })"

text \<open>The result is \<open>(Cp, Cj, Cx, minmax_ntop)\<close>.\<close>

definition sparse_dot_plus_minmax_topn_source ::
  "('v candidate list \<Rightarrow> 'v candidate list) \<Rightarrow> (nat \<Rightarrow> 'v candidate list \<Rightarrow> 'v candidate list) \<Rightarrow>
   int \<Rightarrow> int \<Rightarrow> int list \<Rightarrow> int list \<Rightarrow> 'v list \<Rightarrow> int list \<Rightarrow> int list \<Rightarrow> 'v list \<Rightarrow> int \<Rightarrow> 'v \<Rightarrow>
   int list \<Rightarrow> int list \<Rightarrow> 'v::{zero,plus,times,ord} list \<Rightarrow>
   (int list \<times> int list \<times> 'v list \<times> int) option" where
  "sparse_dot_plus_minmax_topn_source srt psrt n_row n_col Ap Aj Ax Bp Bj Bx ntop lower_bound Cp Cj Cx =
     do {
       st \<leftarrow> plus_init n_col Cp Cj Cx;
       (minmax_ntop, next', sums, candidates, nnz, Cp, Cj, Cx) \<leftarrow>
         plus_rows srt psrt Ap Aj Ax Bp Bj Bx ntop lower_bound 0 n_row st;
       Some (Cp, Cj, Cx, minmax_ntop)
     }"

section \<open>\<^verbatim>\<open>sparse_dot_only_minmax_topn_source\<close>\<close>

text \<open>
  Lines 288-295: the innermost loop marks the columns of row \<open>j\<close> of \<open>B\<close>. The loop state
  is \<open>(unmarked, length)\<close>.
\<close>

type_synonym mark = "bool list \<times> int"

fun mark_kk_body :: "int list \<Rightarrow> int \<Rightarrow> mark \<Rightarrow> mark option" where
  "mark_kk_body Bj kk (unmarked, length') =
     do {
       k \<leftarrow> rd Bj kk;
       u \<leftarrow> rd unmarked k;
       if u then
         do {
           unmarked \<leftarrow> wr unmarked k False;
           Some (unmarked, length' + 1)
         }
       else Some (unmarked, length')
     }"

function mark_kk_loop :: "int list \<Rightarrow> int \<Rightarrow> int \<Rightarrow> mark \<Rightarrow> mark option" where
  "mark_kk_loop Bj kk kk_end st =
     (if kk < kk_end then
        do { st \<leftarrow> mark_kk_body Bj kk st; mark_kk_loop Bj (kk + 1) kk_end st }
      else Some st)"
  by pat_completeness auto
termination
  by (relation "measure (\<lambda>(Bj, kk, kk_end, st). nat (kk_end - kk))") auto

declare mark_kk_loop.simps [simp del]

definition mark_jj_body :: "int list \<Rightarrow> int list \<Rightarrow> int list \<Rightarrow> int \<Rightarrow> mark \<Rightarrow> mark option" where
  "mark_jj_body Aj Bp Bj jj st =
     do {
       j \<leftarrow> rd Aj jj;
       kk_start \<leftarrow> rd Bp j;
       kk_end \<leftarrow> rd Bp (j + 1);
       mark_kk_loop Bj kk_start kk_end st
     }"

function mark_jj_loop ::
  "int list \<Rightarrow> int list \<Rightarrow> int list \<Rightarrow> int \<Rightarrow> int \<Rightarrow> mark \<Rightarrow> mark option" where
  "mark_jj_loop Aj Bp Bj jj jj_end st =
     (if jj < jj_end then
        do { st \<leftarrow> mark_jj_body Aj Bp Bj jj st; mark_jj_loop Aj Bp Bj (jj + 1) jj_end st }
      else Some st)"
  by pat_completeness auto
termination
  by (relation "measure (\<lambda>(Aj, Bp, Bj, jj, jj_end, st). nat (jj_end - jj))") auto

declare mark_jj_loop.simps [simp del]

text \<open>
  Lines 279-297: the body of the row loop. Its state is \<open>(unmarked, minmax_ntop)\<close>:
  \<open>unmarked\<close> is declared before the loop, at line 274, and no statement of the loop
  sets an entry of it back to \<open>true\<close>.
\<close>

fun only_row ::
  "int list \<Rightarrow> int list \<Rightarrow> int list \<Rightarrow> int list \<Rightarrow> int \<Rightarrow> bool list \<times> int \<Rightarrow> (bool list \<times> int) option" where
  "only_row Ap Aj Bp Bj i (unmarked, minmax_ntop) =
     do {
       let length' = 0;
       jj_start \<leftarrow> rd Ap i;
       jj_end \<leftarrow> rd Ap (i + 1);
       (unmarked, length') \<leftarrow> mark_jj_loop Aj Bp Bj jj_start jj_end (unmarked, length');
       let minmax_ntop = (if length' > minmax_ntop then length' else minmax_ntop);
       Some (unmarked, minmax_ntop)
     }"

function only_rows ::
  "int list \<Rightarrow> int list \<Rightarrow> int list \<Rightarrow> int list \<Rightarrow> int \<Rightarrow> int \<Rightarrow> bool list \<times> int \<Rightarrow>
   (bool list \<times> int) option" where
  "only_rows Ap Aj Bp Bj i n_row st =
     (if i < n_row then
        do { st \<leftarrow> only_row Ap Aj Bp Bj i st; only_rows Ap Aj Bp Bj (i + 1) n_row st }
      else Some st)"
  by pat_completeness auto
termination
  by (relation "measure (\<lambda>(Ap, Aj, Bp, Bj, i, n_row, st). nat (n_row - i))") auto

declare only_rows.simps [simp del]

text \<open>The result is \<open>minmax_ntop\<close>.\<close>

definition sparse_dot_only_minmax_topn_source ::
  "int \<Rightarrow> int \<Rightarrow> int list \<Rightarrow> int list \<Rightarrow> int list \<Rightarrow> int list \<Rightarrow> int option" where
  "sparse_dot_only_minmax_topn_source n_row n_col Ap Aj Bp Bj =
     (if n_col < 0 then None
      else do {
        let unmarked = replicate (nat n_col) True;
        let minmax_ntop = 0;
        (unmarked, minmax_ntop) \<leftarrow> only_rows Ap Aj Bp Bj 0 n_row (unmarked, minmax_ntop);
        Some minmax_ntop
      })"

section \<open>A sorting routine to run the kernel with\<close>

text \<open>
  Insertion sort by descending value; equal values come out in the reverse of their order
  in the input. It serves as \<^verbatim>\<open>std::sort\<close> and, sorting
  the whole range, as \<^verbatim>\<open>std::partial_sort\<close> whenever the kernel is run on concrete data.
\<close>

fun insert_desc :: "'v::linorder candidate \<Rightarrow> 'v candidate list \<Rightarrow> 'v candidate list" where
  "insert_desc c [] = [c]"
| "insert_desc c (d # ds) = (if candidate_cmp d c \<or> val d = val c then d # insert_desc c ds else c # d # ds)"

fun sort_desc :: "'v::linorder candidate list \<Rightarrow> 'v candidate list" where
  "sort_desc [] = []"
| "sort_desc (c # cs) = insert_desc c (sort_desc cs)"

definition partial_sort_desc :: "nat \<Rightarrow> 'v::linorder candidate list \<Rightarrow> 'v candidate list" where
  "partial_sort_desc n cs = sort_desc cs"

section \<open>The inputs, the product and the output rows\<close>

text \<open>
  What a valid input is, and the product of the two matrices as the specification speaks
  of it. All of it can be evaluated.
\<close>

text \<open>
  A matrix of \<open>n_rows\<close> rows and \<open>n_cols\<close> columns in CSR form: \<open>n_rows + 1\<close> row pointers \<open>P\<close>,
  non-decreasing from \<open>P[0] = 0\<close>; column indices \<open>J\<close> and values \<open>X\<close> for at least the
  \<open>P[n_rows]\<close> stored entries; and every column index of a stored entry in range. Row \<open>i\<close>
  holds the entries \<open>P[i], ..., P[i+1] - 1\<close>. Columns need not be sorted, and a column may
  occur twice in a row.
\<close>

definition csr :: "int \<Rightarrow> int \<Rightarrow> int list \<Rightarrow> int list \<Rightarrow> 'v list \<Rightarrow> bool" where
  "csr n_rows n_cols P J X \<longleftrightarrow>
     0 \<le> n_rows \<and> length P = nat n_rows + 1 \<and> P ! 0 = 0 \<and> sorted P \<and>
     last P \<le> int (length J) \<and> last P \<le> int (length X) \<and>
     list_all (\<lambda>j. 0 \<le> j \<and> j < n_cols) (take (nat (last P)) J)"

text \<open>
  A valid input of the kernel: \<open>A\<close> is \<open>n_row \<times> n_inner\<close>, \<open>B\<close> is \<open>n_inner \<times> n_col\<close>, and the
  scratch vectors of size \<open>n_col\<close> can be made. The kernel has no parameter \<open>n_inner\<close>.
\<close>

definition valid_input ::
  "int \<Rightarrow> int \<Rightarrow> int \<Rightarrow> int list \<Rightarrow> int list \<Rightarrow> 'v list \<Rightarrow> int list \<Rightarrow> int list \<Rightarrow> 'v list \<Rightarrow> bool" where
  "valid_input n_row n_inner n_col Ap Aj Ax Bp Bj Bx \<longleftrightarrow>
     csr n_row n_inner Ap Aj Ax \<and> csr n_inner n_col Bp Bj Bx \<and> 0 \<le> n_col"

text \<open>
  The columns that row \<open>i\<close> reaches: the column \<open>k\<close> of every stored entry \<open>(j, k)\<close> of \<open>B\<close>, for
  every stored entry \<open>(i, j)\<close> of \<open>A\<close>, with repetitions.
\<close>

definition reach :: "int list \<Rightarrow> int list \<Rightarrow> int list \<Rightarrow> int list \<Rightarrow> int \<Rightarrow> int list" where
  "reach Ap Aj Bp Bj i =
     concat (map (\<lambda>jj. map (\<lambda>kk. Bj ! nat kk) [Bp ! nat (Aj ! nat jj)..Bp ! nat (Aj ! nat jj + 1) - 1])
       [Ap ! nat i..Ap ! nat (i + 1) - 1])"

text \<open>
  The dense view of a CSR matrix: its element \<open>(i, j)\<close> is the sum of the values stored for
  column \<open>j\<close> in row \<open>i\<close>. The element \<open>(i, k)\<close> of the product is \<open>\<Sum>j. A[i,j] * B[j,k]\<close>.
\<close>

definition entry :: "int list \<Rightarrow> int list \<Rightarrow> 'v list \<Rightarrow> int \<Rightarrow> int \<Rightarrow> 'v::comm_monoid_add" where
  "entry P J X i j = sum_list (map (\<lambda>p. X ! nat p) (filter (\<lambda>p. J ! nat p = j) [P ! nat i..P ! nat (i + 1) - 1]))"

definition dot ::
  "int \<Rightarrow> int list \<Rightarrow> int list \<Rightarrow> 'v list \<Rightarrow> int list \<Rightarrow> int list \<Rightarrow> 'v list \<Rightarrow> int \<Rightarrow> int \<Rightarrow>
   'v::comm_semiring_0" where
  "dot n_inner Ap Aj Ax Bp Bj Bx i k =
     sum_list (map (\<lambda>j. entry Ap Aj Ax i j * entry Bp Bj Bx j k) [0..n_inner - 1])"

text \<open>
  The candidates of the specification for row \<open>i\<close>: the pairs \<open>(k, \<Sum>j. A[i,j] * B[j,k])\<close> over
  all columns \<open>k\<close> of the product whose sum is strictly greater than \<open>lower_bound\<close>.
\<close>

definition over_bound ::
  "int \<Rightarrow> int \<Rightarrow> int list \<Rightarrow> int list \<Rightarrow> 'v list \<Rightarrow> int list \<Rightarrow> int list \<Rightarrow> 'v list \<Rightarrow> 'v \<Rightarrow> int \<Rightarrow>
   (int \<times> 'v::{comm_semiring_0,ord}) list" where
  "over_bound n_inner n_col Ap Aj Ax Bp Bj Bx lower_bound i =
     filter (\<lambda>kv. snd kv > lower_bound)
       (map (\<lambda>k. (k, dot n_inner Ap Aj Ax Bp Bj Bx i k)) [0..n_col - 1])"

text \<open>
  \<open>R\<close> is a selection of the \<open>n\<close> largest elements of \<open>S\<close> by value, of all of \<open>S\<close> when it has
  no more than \<open>n\<close>: which of several equal values at the cut it takes is open.
\<close>

definition top_n :: "nat \<Rightarrow> (int \<times> 'v::ord) set \<Rightarrow> (int \<times> 'v) set \<Rightarrow> bool" where
  "top_n n S R \<longleftrightarrow> R \<subseteq> S \<and> card R = min n (card S) \<and> (\<forall>x \<in> R. \<forall>y \<in> S - R. snd y \<le> snd x)"

text \<open>
  Row \<open>i\<close> of an output triple: the (column, value) pairs at the positions \<open>Cp[i], ...,
  Cp[i+1] - 1\<close> of \<open>Cj\<close> and \<open>Cx\<close>.
\<close>

definition out_row :: "int list \<Rightarrow> int list \<Rightarrow> 'v list \<Rightarrow> int \<Rightarrow> (int \<times> 'v) list" where
  "out_row Cp Cj Cx i = map (\<lambda>p. (Cj ! nat p, Cx ! nat p)) [Cp ! nat i..Cp ! nat (i + 1) - 1]"

section \<open>What one row writes, in closed form\<close>

text \<open>
  The result of each loop of a row, as a function of the input. The lemmas show that the
  loops compute these; the hypothesis \<open>room\<close> on the output buffers is stated with them.
\<close>

text \<open>
  The visits of the loops of lines 81-98, in their order: the innermost loop over the
  entries \<open>lo, ..., hi - 1\<close> of \<open>B\<close> visits the column \<open>Bj[kk]\<close> with the product \<open>v * Bx[kk]\<close>;
  \<open>row_products\<close> are all visits of row \<open>i\<close>.
\<close>

definition cells :: "int list \<Rightarrow> 'v list \<Rightarrow> 'v::times \<Rightarrow> int \<Rightarrow> int \<Rightarrow> (int \<times> 'v) list" where
  "cells Bj Bx v lo hi = map (\<lambda>kk. (Bj ! nat kk, v * Bx ! nat kk)) [lo..hi - 1]"

definition products ::
  "int list \<Rightarrow> 'v list \<Rightarrow> int list \<Rightarrow> int list \<Rightarrow> 'v::times list \<Rightarrow> int \<Rightarrow> int \<Rightarrow> (int \<times> 'v) list" where
  "products Aj Ax Bp Bj Bx lo hi =
     concat (map (\<lambda>jj. cells Bj Bx (Ax ! nat jj) (Bp ! nat (Aj ! nat jj)) (Bp ! nat (Aj ! nat jj + 1)))
       [lo..hi - 1])"

definition row_products ::
  "int list \<Rightarrow> int list \<Rightarrow> 'v list \<Rightarrow> int list \<Rightarrow> int list \<Rightarrow> 'v::times list \<Rightarrow> int \<Rightarrow> (int \<times> 'v) list" where
  "row_products Ap Aj Ax Bp Bj Bx i = products Aj Ax Bp Bj Bx (Ap ! nat i) (Ap ! nat (i + 1))"

text \<open>
  The chain of a row, head first: a column is put in front when it is visited for the
  first time. \<open>total kps k\<close> is what \<open>sums[k]\<close> holds after the visits \<open>kps\<close>: the products of
  column \<open>k\<close> added up from \<open>0\<close> in the order of the visits.
\<close>

definition link :: "int list \<Rightarrow> int \<Rightarrow> int list" where
  "link cs k = (if k \<in> set cs then cs else k # cs)"

definition columns :: "(int \<times> 'v) list \<Rightarrow> int list" where
  "columns kps = foldl link [] (map fst kps)"

definition total :: "(int \<times> 'v) list \<Rightarrow> int \<Rightarrow> 'v::{zero,plus}" where
  "total kps k = foldl (+) 0 (map snd (filter (\<lambda>kp. fst kp = k) kps))"

text \<open>
  The candidates of row \<open>i\<close> as the kernel forms them: the pairs \<open>(k, s)\<close> over the distinct
  columns \<open>k\<close> that the row reaches, where \<open>s\<close> is the sum \<open>\<Sum>j. A[i,j] * B[j,k]\<close> taken over
  the stored entries in the order of the loops (\<open>total\<close> of the row's visits), and \<open>s\<close> is
  strictly greater than \<open>lower_bound\<close>. Nothing but \<open>0\<close>, \<open>+\<close>, \<open>*\<close> and \<open>>\<close> of the value type
  is used.
\<close>

definition reached_over_bound ::
  "int list \<Rightarrow> int list \<Rightarrow> 'v list \<Rightarrow> int list \<Rightarrow> int list \<Rightarrow> 'v list \<Rightarrow> 'v \<Rightarrow> int \<Rightarrow>
   (int \<times> 'v::{zero,plus,times,ord}) list" where
  "reached_over_bound Ap Aj Ax Bp Bj Bx lower_bound i =
     filter (\<lambda>kv. snd kv > lower_bound)
       (map (\<lambda>k. (k, total (row_products Ap Aj Ax Bp Bj Bx i) k)) (remdups (reach Ap Aj Bp Bj i)))"

text \<open>
  The \<open>candidates\<close> of a row after the walk: the columns of the chain whose sum is above
  \<open>lower_bound\<close>, in the order of the chain.
\<close>

definition row_candidates :: "'v \<Rightarrow> (int \<times> 'v) list \<Rightarrow> 'v::{zero,plus,ord} candidate list" where
  "row_candidates lower_bound kps =
     filter (\<lambda>c. val c > lower_bound) (map (\<lambda>k. \<lparr>index = k, val = total kps k\<rparr>) (columns kps))"

text \<open>
  What the write loop emits of the candidates: all of them, sorted, or the first \<open>ntop\<close> of
  the partially sorted ones.
\<close>

definition emitted ::
  "('v candidate list \<Rightarrow> 'v candidate list) \<Rightarrow> (nat \<Rightarrow> 'v candidate list \<Rightarrow> 'v candidate list) \<Rightarrow>
   int \<Rightarrow> 'v candidate list \<Rightarrow> 'v candidate list" where
  "emitted srt psrt ntop candidates =
     (if int (length candidates) > ntop then take (nat ntop) (psrt (nat ntop) candidates)
      else srt candidates)"

text \<open>
  The number of entries emitted for the rows \<open>0, ..., m - 1\<close>, whatever the sorting routines
  are, and the room that the caller has to give: \<open>n_row + 1\<close> row pointers, and that many
  columns and values. (\<open>n_row * ntop\<close> entries always do: lemma \<open>room_by_cap\<close>.)
\<close>

definition total_emitted ::
  "int list \<Rightarrow> int list \<Rightarrow> 'v list \<Rightarrow> int list \<Rightarrow> int list \<Rightarrow> 'v list \<Rightarrow> int \<Rightarrow> 'v::{zero,plus,times,ord} \<Rightarrow>
   nat \<Rightarrow> nat" where
  "total_emitted Ap Aj Ax Bp Bj Bx ntop lower_bound m =
     sum_list (map (\<lambda>i. min (nat ntop)
        (length (row_candidates lower_bound (row_products Ap Aj Ax Bp Bj Bx (int i))))) [0..<m])"

definition room ::
  "int \<Rightarrow> int list \<Rightarrow> int list \<Rightarrow> 'v list \<Rightarrow> int list \<Rightarrow> int list \<Rightarrow> 'v list \<Rightarrow> int \<Rightarrow> 'v::{zero,plus,times,ord} \<Rightarrow>
   int list \<Rightarrow> int list \<Rightarrow> 'v list \<Rightarrow> bool" where
  "room n_row Ap Aj Ax Bp Bj Bx ntop lower_bound Cp Cj Cx \<longleftrightarrow>
     nat n_row + 1 \<le> length Cp \<and>
     total_emitted Ap Aj Ax Bp Bj Bx ntop lower_bound (nat n_row) \<le> length Cj \<and>
     total_emitted Ap Aj Ax Bp Bj Bx ntop lower_bound (nat n_row) \<le> length Cx"

section \<open>Notions of the proofs\<close>

text \<open>
  The body of the innermost loop, for a column in range: \<open>kk_body\<close> without the reads of
  \<open>Bj\<close> and \<open>Bx\<close> and without the bounds checks.
\<close>

fun touch :: "'v::{plus,times} acc \<Rightarrow> int \<times> 'v \<Rightarrow> 'v acc" where
  "touch (next', sums, head, length') (k, p) =
     (if next' ! nat k = - 1
      then (next'[nat k := head], sums[nat k := sums ! nat k + p], k, length' + 1)
      else (next', sums[nat k := sums ! nat k + p], head, length'))"

definition sized :: "nat \<Rightarrow> 'v acc \<Rightarrow> bool" where
  "sized n st \<longleftrightarrow> (case st of (next', sums, head, length') \<Rightarrow> length next' = n \<and> length sums = n)"

text \<open>
  \<open>chain next h cs\<close>: following \<open>next\<close> from \<open>h\<close> goes through the columns \<open>cs\<close> and ends at
  \<open>-2\<close>, the first value of \<open>head\<close>. \<open>tracks n kps st\<close> is the invariant of the accumulation:
  after the visits \<open>kps\<close>, from clean arrays of size \<open>n\<close>, the chain from \<open>head\<close> is
  \<open>columns kps\<close>, \<open>length\<close> is its length, \<open>next\<close> is \<open>-1\<close> off the chain, and \<open>sums[k]\<close> is
  \<open>total kps k\<close>.
\<close>

fun chain :: "int list \<Rightarrow> int \<Rightarrow> int list \<Rightarrow> bool" where
  "chain next' h [] \<longleftrightarrow> h = - 2"
| "chain next' h (c # cs) \<longleftrightarrow> h = c \<and> chain next' (next' ! nat c) cs"

definition tracks :: "nat \<Rightarrow> (int \<times> 'v) list \<Rightarrow> 'v::{zero,plus,times} acc \<Rightarrow> bool" where
  "tracks n kps st \<longleftrightarrow>
     (case st of (next', sums, head, length') \<Rightarrow>
        length next' = n \<and> length sums = n \<and>
        chain next' head (columns kps) \<and> length' = int (length (columns kps)) \<and>
        (\<forall>k. 0 \<le> k \<and> k < int n \<and> k \<notin> set (columns kps) \<longrightarrow> next' ! nat k = - 1) \<and>
        (\<forall>k. 0 \<le> k \<and> k < int n \<longrightarrow> sums ! nat k = total kps k))"

text \<open>
  The arrays after the walk (the columns \<open>cs\<close> set to \<open>v\<close>) and the candidates it pushes,
  read from \<open>sums\<close>.
\<close>

definition clear :: "'a \<Rightarrow> int list \<Rightarrow> 'a list \<Rightarrow> 'a list" where
  "clear v cs xs = foldl (\<lambda>xs c. xs[nat c := v]) xs cs"

definition picked :: "'v::ord \<Rightarrow> 'v list \<Rightarrow> int list \<Rightarrow> 'v candidate list" where
  "picked lower_bound sums cs =
     filter (\<lambda>c. val c > lower_bound) (map (\<lambda>k. \<lparr>index = k, val = sums ! nat k\<rparr>) cs)"

text \<open>
  \<open>blit xs pos ys\<close>: the array \<open>xs\<close> with \<open>ys\<close> written over it from position \<open>pos\<close> on.
\<close>

definition blit :: "'a list \<Rightarrow> nat \<Rightarrow> 'a list \<Rightarrow> 'a list" where
  "blit xs pos ys = take pos xs @ ys @ drop (pos + length ys) xs"

text \<open>
  A candidate as a pair; the emitted row \<open>i\<close> and the length of the chain of row \<open>i\<close>; the
  entries emitted before row \<open>m\<close>, the row pointers written up to row \<open>m\<close>, and the running
  maximum of line 210 after \<open>m\<close> rows; and with them the state of the row loop of
  \<open>sparse_dot_plus_minmax_topn_source\<close> after \<open>m\<close> rows.
\<close>

definition pair :: "'v candidate \<Rightarrow> int \<times> 'v" where
  "pair c = (index c, val c)"

definition row_emitted ::
  "('v candidate list \<Rightarrow> 'v candidate list) \<Rightarrow> (nat \<Rightarrow> 'v candidate list \<Rightarrow> 'v candidate list) \<Rightarrow>
   int list \<Rightarrow> int list \<Rightarrow> 'v list \<Rightarrow> int list \<Rightarrow> int list \<Rightarrow> 'v list \<Rightarrow> int \<Rightarrow> 'v \<Rightarrow> int \<Rightarrow>
   'v::{zero,plus,times,ord} candidate list" where
  "row_emitted srt psrt Ap Aj Ax Bp Bj Bx ntop lower_bound i =
     emitted srt psrt ntop (row_candidates lower_bound (row_products Ap Aj Ax Bp Bj Bx i))"

definition row_width ::
  "int list \<Rightarrow> int list \<Rightarrow> 'v list \<Rightarrow> int list \<Rightarrow> int list \<Rightarrow> 'v::times list \<Rightarrow> int \<Rightarrow> int" where
  "row_width Ap Aj Ax Bp Bj Bx i = int (length (columns (row_products Ap Aj Ax Bp Bj Bx i)))"

definition upto_rows :: "(int \<Rightarrow> 'a list) \<Rightarrow> nat \<Rightarrow> 'a list" where
  "upto_rows R m = concat (map (\<lambda>i. R (int i)) [0..<m])"

definition offsets :: "(int \<Rightarrow> 'a list) \<Rightarrow> nat \<Rightarrow> int list" where
  "offsets R m = map (\<lambda>r. int (length (upto_rows R r))) [0..<Suc m]"

fun widest :: "(int \<Rightarrow> int) \<Rightarrow> nat \<Rightarrow> int" where
  "widest W 0 = 0"
| "widest W (Suc m) = (if W (int m) > widest W m then W (int m) else widest W m)"

definition after_rows ::
  "(int \<Rightarrow> 'v candidate list) \<Rightarrow> (int \<Rightarrow> int) \<Rightarrow> nat \<Rightarrow> int list \<Rightarrow> int list \<Rightarrow> 'v list \<Rightarrow> nat \<Rightarrow>
   int \<times> 'v::zero topn_state" where
  "after_rows R W n Cp Cj Cx m =
     (widest W m, replicate n (- 1), replicate n 0, [], int (length (upto_rows R m)),
      blit Cp 0 (offsets R m), blit Cj 0 (map index (upto_rows R m)), blit Cx 0 (map val (upto_rows R m)))"

section \<open>Lemmas\<close>

subsection \<open>The accumulation loops as a fold over the visits\<close>

lemma rd_Some: "0 \<le> i \<Longrightarrow> i < int (length xs) \<Longrightarrow> rd xs i = Some (xs ! nat i)"
  by (simp add: rd_def)

lemma wr_Some: "0 \<le> i \<Longrightarrow> i < int (length xs) \<Longrightarrow> wr xs i v = Some (xs[nat i := v])"
  by (simp add: wr_def)

lemma sized_touch: "sized n st \<Longrightarrow> sized n (touch st kp)"
  by (cases st; cases kp) (simp add: sized_def)

lemma sized_foldl_touch: "sized n st \<Longrightarrow> sized n (foldl touch st kps)"
  by (induction kps arbitrary: st) (simp_all add: sized_touch)

lemma kk_body_touch:
  assumes "0 \<le> kk" "kk < int (length Bj)" "kk < int (length Bx)"
    and "0 \<le> Bj ! nat kk" "Bj ! nat kk < int n" "sized n st"
  shows "kk_body Bj Bx v kk st = Some (touch st (Bj ! nat kk, v * Bx ! nat kk))"
  using assms by (cases st) (simp add: sized_def rd_Some wr_Some)

lemma cells_rec: "lo < hi \<Longrightarrow> cells Bj Bx v lo hi = (Bj ! nat lo, v * Bx ! nat lo) # cells Bj Bx v (lo + 1) hi"
  by (simp add: cells_def upto_rec1)

lemma cells_Nil: "\<not> lo < hi \<Longrightarrow> cells Bj Bx v lo hi = []"
  by (simp add: cells_def)

lemma kk_loop_foldl:
  assumes "0 \<le> kk" "kk_end \<le> int (length Bj)" "kk_end \<le> int (length Bx)"
    and "\<forall>p. kk \<le> p \<and> p < kk_end \<longrightarrow> 0 \<le> Bj ! nat p \<and> Bj ! nat p < int n" "sized n st"
  shows "kk_loop Bj Bx v kk kk_end st = Some (foldl touch st (cells Bj Bx v kk kk_end))"
  using assms
proof (induction Bj Bx v kk kk_end st rule: kk_loop.induct)
  case (1 Bj Bx v kk kk_end st)
  show ?case
  proof (cases "kk < kk_end")
    case False
    then show ?thesis by (subst kk_loop.simps) (simp add: cells_Nil)
  next
    case True
    have b: "kk_body Bj Bx v kk st = Some (touch st (Bj ! nat kk, v * Bx ! nat kk))"
      using True "1.prems" by (intro kk_body_touch) auto
    have "kk_loop Bj Bx v (kk + 1) kk_end (touch st (Bj ! nat kk, v * Bx ! nat kk))
        = Some (foldl touch (touch st (Bj ! nat kk, v * Bx ! nat kk)) (cells Bj Bx v (kk + 1) kk_end))"
      using True "1.prems" by (intro "1.IH"[OF True b]) (auto simp: sized_touch)
    then show ?thesis
      using True b by (subst kk_loop.simps) (simp add: cells_rec)
  qed
qed

lemma csr_row:
  assumes "csr n_rows n_cols P J X" "0 \<le> i" "i < n_rows"
  shows "0 \<le> P ! nat i" "P ! nat i \<le> P ! nat (i + 1)" "P ! nat (i + 1) \<le> int (length J)"
    "P ! nat (i + 1) \<le> int (length X)"
    "\<forall>p. P ! nat i \<le> p \<and> p < P ! nat (i + 1) \<longrightarrow> 0 \<le> J ! nat p \<and> J ! nat p < n_cols"
proof -
  from assms have len: "length P = nat n_rows + 1" and s: "sorted P" and z: "P ! 0 = 0"
    and lj: "last P \<le> int (length J)" and lx: "last P \<le> int (length X)"
    and rng: "list_all (\<lambda>j. 0 \<le> j \<and> j < n_cols) (take (nat (last P)) J)"
    by (simp_all add: csr_def)
  have lastP: "last P = P ! nat n_rows"
    using len by (simp add: last_conv_nth[of P] length_greater_0_conv[symmetric] del: length_greater_0_conv)
  have i1: "nat (i + 1) = Suc (nat i)" using assms(2) by (simp add: nat_add_distrib)
  have "P ! 0 \<le> P ! nat i" using s len assms by (intro sorted_nth_mono) auto
  then show a: "0 \<le> P ! nat i" using z by simp
  show b: "P ! nat i \<le> P ! nat (i + 1)" using s len assms by (intro sorted_nth_mono) auto
  have c: "P ! nat (i + 1) \<le> last P" unfolding lastP using s len assms by (intro sorted_nth_mono) auto
  show "P ! nat (i + 1) \<le> int (length J)" using c lj by simp
  show "P ! nat (i + 1) \<le> int (length X)" using c lx by simp
  show "\<forall>p. P ! nat i \<le> p \<and> p < P ! nat (i + 1) \<longrightarrow> 0 \<le> J ! nat p \<and> J ! nat p < n_cols"
  proof (intro allI impI)
    fix p assume p: "P ! nat i \<le> p \<and> p < P ! nat (i + 1)"
    then have "nat p < length (take (nat (last P)) J)" using a c lj by auto
    then have "(\<lambda>j. 0 \<le> j \<and> j < n_cols) (take (nat (last P)) J ! nat p)"
      using rng by (simp add: list_all_length)
    moreover have "take (nat (last P)) J ! nat p = J ! nat p" using p a c by auto
    ultimately show "0 \<le> J ! nat p \<and> J ! nat p < n_cols" by simp
  qed
qed

lemma products_rec:
  "lo < hi \<Longrightarrow> products Aj Ax Bp Bj Bx lo hi =
     cells Bj Bx (Ax ! nat lo) (Bp ! nat (Aj ! nat lo)) (Bp ! nat (Aj ! nat lo + 1)) @
     products Aj Ax Bp Bj Bx (lo + 1) hi"
  by (simp add: products_def upto_rec1)

lemma products_Nil: "\<not> lo < hi \<Longrightarrow> products Aj Ax Bp Bj Bx lo hi = []"
  by (simp add: products_def)

lemma jj_loop_foldl:
  assumes "csr n_inner (int n) Bp Bj Bx"
    and "0 \<le> jj" "jj_end \<le> int (length Aj)" "jj_end \<le> int (length Ax)"
    and "\<forall>p. jj \<le> p \<and> p < jj_end \<longrightarrow> 0 \<le> Aj ! nat p \<and> Aj ! nat p < n_inner" "sized n st"
  shows "jj_loop Aj Ax Bp Bj Bx jj jj_end st = Some (foldl touch st (products Aj Ax Bp Bj Bx jj jj_end))"
  using assms
proof (induction Aj Ax Bp Bj Bx jj jj_end st rule: jj_loop.induct)
  case (1 Aj Ax Bp Bj Bx jj jj_end st)
  show ?case
  proof (cases "jj < jj_end")
    case False
    then show ?thesis by (subst jj_loop.simps) (simp add: products_Nil)
  next
    case True
    let ?j = "Aj ! nat jj"
    let ?cs = "cells Bj Bx (Ax ! nat jj) (Bp ! nat ?j) (Bp ! nat (?j + 1))"
    have j: "0 \<le> ?j" "?j < n_inner" using True "1.prems" by auto
    note row = csr_row[OF "1.prems"(1) j]
    have lenBp: "length Bp = nat n_inner + 1" using "1.prems"(1) by (simp add: csr_def)
    have kk: "kk_loop Bj Bx (Ax ! nat jj) (Bp ! nat ?j) (Bp ! nat (?j + 1)) st = Some (foldl touch st ?cs)"
      using row "1.prems" by (intro kk_loop_foldl) auto
    have r1: "rd Bp ?j = Some (Bp ! nat ?j)" and r2: "rd Bp (?j + 1) = Some (Bp ! nat (?j + 1))"
      using j lenBp by (auto intro!: rd_Some)
    have b: "jj_body Aj Ax Bp Bj Bx jj st = Some (foldl touch st ?cs)"
      using True "1.prems" kk r1 r2 by (simp add: jj_body_def rd_Some)
    have "jj_loop Aj Ax Bp Bj Bx (jj + 1) jj_end (foldl touch st ?cs)
        = Some (foldl touch (foldl touch st ?cs) (products Aj Ax Bp Bj Bx (jj + 1) jj_end))"
      using True "1.prems" by (intro "1.IH"[OF True b]) (auto simp: sized_foldl_touch)
    then show ?thesis
      using True b by (subst jj_loop.simps) (simp add: products_rec)
  qed
qed

lemma accumulate_foldl:
  assumes "csr n_row n_inner Ap Aj Ax" "csr n_inner (int n) Bp Bj Bx" "0 \<le> i" "i < n_row"
    and "length next' = n" "length sums = n"
  shows "accumulate Ap Aj Ax Bp Bj Bx i next' sums =
    Some (foldl touch (next', sums, - 2, 0) (row_products Ap Aj Ax Bp Bj Bx i))"
proof -
  note row = csr_row[OF assms(1) assms(3,4)]
  have lenAp: "length Ap = nat n_row + 1" using assms(1) by (simp add: csr_def)
  have "jj_loop Aj Ax Bp Bj Bx (Ap ! nat i) (Ap ! nat (i + 1)) (next', sums, - 2, 0) =
      Some (foldl touch (next', sums, - 2, 0) (products Aj Ax Bp Bj Bx (Ap ! nat i) (Ap ! nat (i + 1))))"
    using row assms by (intro jj_loop_foldl[where n_inner = n_inner]) (auto simp: sized_def)
  moreover have "rd Ap i = Some (Ap ! nat i)" and "rd Ap (i + 1) = Some (Ap ! nat (i + 1))"
    using assms(3,4) lenAp by (auto intro!: rd_Some)
  ultimately show ?thesis
    by (simp add: accumulate_def row_products_def)
qed

lemma cells_keys:
  assumes "\<forall>p. lo \<le> p \<and> p < hi \<longrightarrow> 0 \<le> Bj ! nat p \<and> Bj ! nat p < n"
  shows "\<forall>kp \<in> set (cells Bj Bx v lo hi). 0 \<le> fst kp \<and> fst kp < n"
  using assms by (auto simp: cells_def)

lemma row_products_keys:
  assumes "csr n_row n_inner Ap Aj Ax" "csr n_inner n_col Bp Bj Bx" "0 \<le> i" "i < n_row"
  shows "\<forall>kp \<in> set (row_products Ap Aj Ax Bp Bj Bx i). 0 \<le> fst kp \<and> fst kp < n_col"
proof
  fix kp assume "kp \<in> set (row_products Ap Aj Ax Bp Bj Bx i)"
  then obtain jj where jj: "Ap ! nat i \<le> jj" "jj < Ap ! nat (i + 1)"
    and kp: "kp \<in> set (cells Bj Bx (Ax ! nat jj) (Bp ! nat (Aj ! nat jj)) (Bp ! nat (Aj ! nat jj + 1)))"
    by (auto simp: row_products_def products_def)
  note row = csr_row[OF assms(1) assms(3,4)]
  have j: "0 \<le> Aj ! nat jj" "Aj ! nat jj < n_inner" using row(5) jj by auto
  note rowB = csr_row[OF assms(2) j]
  show "0 \<le> fst kp \<and> fst kp < n_col"
    using cells_keys[OF rowB(5)] kp by blast
qed

subsection \<open>The chain that the accumulation builds\<close>

lemma columns_Nil [simp]: "columns [] = []"
  by (simp add: columns_def)

lemma columns_snoc: "columns (kps @ [(k, p)]) = link (columns kps) k"
  by (simp add: columns_def)

lemma total_Nil [simp]: "total [] k = 0"
  by (simp add: total_def)

lemma total_snoc: "total (kps @ [(k, p)]) k' = (if k = k' then total kps k' + p else total kps k')"
  by (simp add: total_def)

lemma set_columns: "set (columns kps) = fst ` set kps"
proof (induction kps rule: rev_induct)
  case Nil
  show ?case by simp
next
  case (snoc kp kps)
  then show ?case by (cases kp) (auto simp: columns_snoc link_def)
qed

lemma distinct_columns: "distinct (columns kps)"
proof (induction kps rule: rev_induct)
  case Nil
  show ?case by simp
next
  case (snoc kp kps)
  then show ?case by (cases kp) (auto simp: columns_snoc link_def)
qed

lemma chain_head: "chain next' h cs \<Longrightarrow> h = (case cs of [] \<Rightarrow> - 2 | c # _ \<Rightarrow> c)"
  by (cases cs) simp_all

lemma chain_marked:
  "chain next' h cs \<Longrightarrow> \<forall>c \<in> set cs. 0 \<le> c \<Longrightarrow> c \<in> set cs \<Longrightarrow> next' ! nat c \<noteq> - 1"
proof (induction cs arbitrary: h)
  case Nil
  then show ?case by simp
next
  case (Cons d ds)
  show ?case
  proof (cases "c = d")
    case True
    from Cons.prems(1) have "chain next' (next' ! nat d) ds" by simp
    from chain_head[OF this] Cons.prems(2) have "next' ! nat d \<noteq> - 1"
      by (cases ds) auto
    with True show ?thesis by simp
  next
    case False
    with Cons show ?thesis by auto
  qed
qed

lemma chain_update:
  "\<forall>c \<in> set cs. 0 \<le> c \<Longrightarrow> 0 \<le> k \<Longrightarrow> k \<notin> set cs \<Longrightarrow> chain (next'[nat k := v]) h cs = chain next' h cs"
proof (induction cs arbitrary: h)
  case Nil
  show ?case by simp
next
  case (Cons d ds)
  then have "nat k \<noteq> nat d" by auto
  with Cons show ?case by simp
qed

lemma tracks_init: "tracks n [] (replicate n (- 1), replicate n 0, - 2, 0)"
  by (simp add: tracks_def nat_less_iff)

lemma tracks_touch:
  assumes t: "tracks n kps st" and k: "0 \<le> k" "k < int n"
    and r: "\<forall>c \<in> set (columns kps). 0 \<le> c \<and> c < int n"
  shows "tracks n (kps @ [(k, p)]) (touch st (k, p))"
proof -
  obtain next' sums head length' where st: "st = (next', sums, head, length')"
    by (cases st) auto
  from t st have len: "length next' = n" "length sums = n"
    and ch: "chain next' head (columns kps)" and l: "length' = int (length (columns kps))"
    and un: "\<forall>k. 0 \<le> k \<and> k < int n \<and> k \<notin> set (columns kps) \<longrightarrow> next' ! nat k = - 1"
    and su: "\<forall>k. 0 \<le> k \<and> k < int n \<longrightarrow> sums ! nat k = total kps k"
    by (simp_all add: tracks_def)
  from r have r0: "\<forall>c \<in> set (columns kps). 0 \<le> c" by simp
  have sums': "\<forall>k'. 0 \<le> k' \<and> k' < int n \<longrightarrow>
      sums[nat k := sums ! nat k + p] ! nat k' = total (kps @ [(k, p)]) k'"
  proof (intro allI impI)
    fix k' assume k': "0 \<le> k' \<and> k' < int n"
    show "sums[nat k := sums ! nat k + p] ! nat k' = total (kps @ [(k, p)]) k'"
    proof (cases "k = k'")
      case True
      then show ?thesis using k len su by (simp add: total_snoc)
    next
      case False
      then have "nat k \<noteq> nat k'" using k k' by auto
      then show ?thesis using False k' su by (simp add: total_snoc)
    qed
  qed
  show ?thesis
  proof (cases "k \<in> set (columns kps)")
    case True
    then have "next' ! nat k \<noteq> - 1" using chain_marked[OF ch r0] by simp
    then show ?thesis
      using True st len ch l un sums' by (simp add: tracks_def columns_snoc link_def)
  next
    case False
    then have m: "next' ! nat k = - 1" using un k by simp
    have "chain (next'[nat k := head]) head (columns kps)"
      using chain_update[OF r0 k(1) False] ch by simp
    moreover have "next'[nat k := head] ! nat k = head" using k len by simp
    moreover have "\<forall>k'. 0 \<le> k' \<and> k' < int n \<and> k' \<notin> set (k # columns kps) \<longrightarrow>
        next'[nat k := head] ! nat k' = - 1"
    proof (intro allI impI)
      fix k' assume k': "0 \<le> k' \<and> k' < int n \<and> k' \<notin> set (k # columns kps)"
      then have "nat k \<noteq> nat k'" using k by auto
      then show "next'[nat k := head] ! nat k' = - 1" using un k' by simp
    qed
    ultimately show ?thesis
      using False st m len l sums' by (simp add: tracks_def columns_snoc link_def)
  qed
qed

lemma tracks_foldl:
  assumes "\<forall>kp \<in> set kps. 0 \<le> fst kp \<and> fst kp < int n"
  shows "tracks n kps (foldl touch (replicate n (- 1), replicate n 0, - 2, 0) kps)"
  using assms
proof (induction kps rule: rev_induct)
  case Nil
  show ?case by (simp add: tracks_init)
next
  case (snoc kp kps)
  obtain k p where kp: "kp = (k, p)" by (cases kp) auto
  have "\<forall>c \<in> set (columns kps). 0 \<le> c \<and> c < int n"
    using snoc.prems by (auto simp: set_columns)
  then show ?case
    using snoc kp by (simp add: tracks_touch)
qed

subsection \<open>The walk along the chain\<close>

lemma clear_Nil [simp]: "clear v [] xs = xs"
  by (simp add: clear_def)

lemma clear_Cons [simp]: "clear v (c # cs) xs = clear v cs (xs[nat c := v])"
  by (simp add: clear_def)

lemma length_clear [simp]: "length (clear v cs xs) = length xs"
  by (induction cs arbitrary: xs) simp_all

lemma nth_clear:
  "\<forall>c \<in> set cs. 0 \<le> c \<Longrightarrow> 0 \<le> k \<Longrightarrow> nat k < length xs \<Longrightarrow>
   clear v cs xs ! nat k = (if k \<in> set cs then v else xs ! nat k)"
proof (induction cs arbitrary: xs)
  case Nil
  show ?case by simp
next
  case (Cons c cs)
  have "nat c = nat k \<longleftrightarrow> c = k" using Cons.prems by auto
  then show ?case using Cons by (auto simp: nth_list_update)
qed

lemma picked_Nil [simp]: "picked lower_bound sums [] = []"
  by (simp add: picked_def)

lemma picked_Cons:
  "picked lower_bound sums (c # cs) =
     (if sums ! nat c > lower_bound then [\<lparr>index = c, val = sums ! nat c\<rparr>] else []) @
     picked lower_bound sums cs"
  by (simp add: picked_def)

lemma picked_update:
  "\<forall>c \<in> set cs. 0 \<le> c \<Longrightarrow> 0 \<le> k \<Longrightarrow> k \<notin> set cs \<Longrightarrow>
   picked lower_bound (sums[nat k := v]) cs = picked lower_bound sums cs"
proof -
  assume a: "\<forall>c \<in> set cs. 0 \<le> c" "0 \<le> k" "k \<notin> set cs"
  have "\<forall>c \<in> set cs. sums[nat k := v] ! nat c = sums ! nat c"
  proof
    fix c assume c: "c \<in> set cs"
    with a(1) have c0: "0 \<le> c" by blast
    have "k \<noteq> c" using a(3) c by auto
    with c0 a(2) have "nat k \<noteq> nat c" by simp
    then show "sums[nat k := v] ! nat c = sums ! nat c" by simp
  qed
  then have m: "map (\<lambda>k'. \<lparr>index = k', val = sums[nat k := v] ! nat k'\<rparr>) cs
      = map (\<lambda>k'. \<lparr>index = k', val = sums ! nat k'\<rparr>) cs"
    by simp
  show ?thesis unfolding picked_def m by (rule refl)
qed

lemma finalize_loop_chain:
  assumes "chain next' head cs" "distinct cs" "\<forall>c \<in> set cs. 0 \<le> c \<and> c < int n"
    and "length next' = n" "length sums = n" "length' - jj = int (length cs)"
  shows "finalize_loop lower_bound jj length' (next', sums, head, candidates) =
    Some (clear (- 1) cs next', clear 0 cs sums, - 2, candidates @ picked lower_bound sums cs)"
  using assms
proof (induction cs arbitrary: next' sums head candidates jj)
  case Nil
  then show ?case by (subst finalize_loop.simps) simp
next
  case (Cons c cs)
  from Cons.prems have h: "head = c" and ch: "chain next' (next' ! nat c) cs"
    and c: "0 \<le> c" "c < int n" and nin: "c \<notin> set cs" and jj: "jj < length'"
    and r0: "\<forall>c \<in> set cs. 0 \<le> c"
    by auto
  let ?cands = "candidates @ (if sums ! nat c > lower_bound then [\<lparr>index = c, val = sums ! nat c\<rparr>] else [])"
  have b: "finalize_body lower_bound (next', sums, head, candidates) =
      Some (next'[nat c := - 1], sums[nat c := 0], next' ! nat c, ?cands)"
    using h c Cons.prems(4,5) by (simp add: rd_Some wr_Some Let_def)
  have "finalize_loop lower_bound (jj + 1) length' (next'[nat c := - 1], sums[nat c := 0], next' ! nat c, ?cands)
      = Some (clear (- 1) cs (next'[nat c := - 1]), clear 0 cs (sums[nat c := 0]), - 2,
          ?cands @ picked lower_bound (sums[nat c := 0]) cs)"
    using Cons.prems ch chain_update[OF r0 c(1) nin]
    by (intro Cons.IH) auto
  then show ?case
    using jj b picked_update[OF r0 c(1) nin]
    by (subst finalize_loop.simps) (simp add: picked_Cons)
qed

lemma walk_clean:
  fixes kps :: "(int \<times> 'v::{zero,plus,times,ord}) list"
  assumes keys: "\<forall>kp \<in> set kps. 0 \<le> fst kp \<and> fst kp < int n"
    and st: "foldl touch (replicate n (- 1), replicate n 0, - 2, 0) kps = (next', sums, head, length')"
  shows "length' = int (length (columns kps))"
    and "finalize_loop lower_bound 0 length' (next', sums, head, []) =
      Some (replicate n (- 1), replicate n 0, - 2, row_candidates lower_bound kps)"
proof -
  let ?cs = "columns kps"
  from tracks_foldl[OF keys] st have len: "length next' = n" "length sums = n"
    and ch: "chain next' head ?cs" and l: "length' = int (length ?cs)"
    and un: "\<forall>k. 0 \<le> k \<and> k < int n \<and> k \<notin> set ?cs \<longrightarrow> next' ! nat k = - 1"
    and su: "\<forall>k. 0 \<le> k \<and> k < int n \<longrightarrow> sums ! nat k = total kps k"
    by (simp_all add: tracks_def)
  show "length' = int (length ?cs)" by (rule l)
  have r: "\<forall>c \<in> set ?cs. 0 \<le> c \<and> c < int n" using keys by (auto simp: set_columns)
  then have r0: "\<forall>c \<in> set ?cs. 0 \<le> c" by simp
  have f: "finalize_loop lower_bound 0 length' (next', sums, head, []) =
      Some (clear (- 1) ?cs next', clear 0 ?cs sums, - 2, [] @ picked lower_bound sums ?cs)"
    using ch distinct_columns r len l by (intro finalize_loop_chain) auto
  have n1: "clear (- 1) ?cs next' = replicate n (- 1)"
  proof (rule nth_equalityI)
    show "length (clear (- 1) ?cs next') = length (replicate n (- 1 :: int))" using len by simp
  next
    fix i assume "i < length (clear (- 1) ?cs next')"
    then have i: "i < n" using len by simp
    have "clear (- 1) ?cs next' ! nat (int i) = (if int i \<in> set ?cs then - 1 else next' ! nat (int i))"
      using r0 i len by (intro nth_clear) auto
    then show "clear (- 1) ?cs next' ! i = replicate n (- 1) ! i"
      using un[rule_format, of "int i"] i by auto
  qed
  have n2: "clear 0 ?cs sums = replicate n 0"
  proof (rule nth_equalityI)
    show "length (clear 0 ?cs sums) = length (replicate n (0 :: 'v))" using len by simp
  next
    fix i assume "i < length (clear 0 ?cs sums)"
    then have i: "i < n" using len by simp
    have "clear 0 ?cs sums ! nat (int i) = (if int i \<in> set ?cs then 0 else sums ! nat (int i))"
      using r0 i len by (intro nth_clear) auto
    moreover have "total kps (int i) = 0" if "int i \<notin> set ?cs"
    proof -
      have "filter (\<lambda>kp. fst kp = int i) kps = []"
        using that by (force simp: set_columns filter_empty_conv)
      then show ?thesis by (simp add: total_def)
    qed
    ultimately show "clear 0 ?cs sums ! i = replicate n 0 ! i"
      using su[rule_format, of "int i"] i by auto
  qed
  have m: "map (\<lambda>k. \<lparr>index = k, val = sums ! nat k\<rparr>) ?cs = map (\<lambda>k. \<lparr>index = k, val = total kps k\<rparr>) ?cs"
    using su r by simp
  have n3: "picked lower_bound sums ?cs = row_candidates lower_bound kps"
    unfolding picked_def row_candidates_def m by (rule refl)
  show "finalize_loop lower_bound 0 length' (next', sums, head, []) =
      Some (replicate n (- 1), replicate n 0, - 2, row_candidates lower_bound kps)"
    using f n1 n2 n3 by simp
qed

subsection \<open>Selection and the write loop\<close>

lemma length_blit: "pos + length ys \<le> length xs \<Longrightarrow> length (blit xs pos ys) = length xs"
  by (simp add: blit_def)

lemma blit_Nil: "blit xs pos [] = xs"
  by (simp add: blit_def)

lemma blit_Cons:
  assumes "pos < length xs"
  shows "blit (xs[pos := y]) (Suc pos) ys = blit xs pos (y # ys)"
proof -
  have "take (Suc pos) (xs[pos := y]) = take pos xs @ [y]"
    using assms by (simp add: take_Suc_conv_app_nth)
  moreover have "drop (Suc pos + length ys) (xs[pos := y]) = drop (Suc pos + length ys) xs"
    by simp
  ultimately show ?thesis by (simp add: blit_def)
qed

lemma blit_blit:
  assumes "length ys \<le> length xs"
  shows "blit (blit xs 0 ys) (length ys) zs = blit xs 0 (ys @ zs)"
  using assms by (simp add: blit_def add.commute)

lemma blit_snoc:
  assumes "length ys < length xs"
  shows "(blit xs 0 ys)[length ys := y] = blit xs 0 (ys @ [y])"
proof -
  have "(ys @ drop (length ys) xs)[length ys := y] = ys @ (drop (length ys) xs)[0 := y]"
    by (simp add: list_update_append)
  moreover have "(drop (length ys) xs)[0 := y] = y # drop (Suc (length ys)) xs"
    using assms by (cases "drop (length ys) xs") (auto simp: drop_Suc drop_tl)
  ultimately show ?thesis by (simp add: blit_def)
qed

lemma nth_blit: "p < length ys \<Longrightarrow> blit xs 0 ys ! p = ys ! p"
  by (simp add: blit_def nth_append)

lemma write_loop_blit:
  assumes "0 \<le> a" "a \<le> len" "len \<le> int (length candidates)" "0 \<le> nnz"
    and "nnz + (len - a) \<le> int (length Cj)" "nnz + (len - a) \<le> int (length Cx)"
  shows "write_loop candidates a len (Cj, Cx, nnz) =
    Some (blit Cj (nat nnz) (map index (take (nat (len - a)) (drop (nat a) candidates))),
          blit Cx (nat nnz) (map val (take (nat (len - a)) (drop (nat a) candidates))),
          nnz + (len - a))"
  using assms
proof (induction candidates a len "(Cj, Cx, nnz)" arbitrary: Cj Cx nnz rule: write_loop.induct)
  case (1 candidates a len Cj Cx nnz)
  show ?case
  proof (cases "a < len")
    case False
    with "1.prems" have "len - a = 0" by simp
    with False show ?thesis by (subst write_loop.simps) (simp add: blit_Nil)
  next
    case True
    let ?c = "candidates ! nat a"
    have r: "rd candidates a = Some ?c" using True "1.prems" by (intro rd_Some) auto
    have w1: "wr Cj nnz (index ?c) = Some (Cj[nat nnz := index ?c])"
      and w2: "wr Cx nnz (val ?c) = Some (Cx[nat nnz := val ?c])"
      using True "1.prems" by (auto intro!: wr_Some)
    have n: "nat (len - a) = Suc (nat (len - (a + 1)))" "nat (a + 1) = Suc (nat a)"
      "nat (nnz + 1) = Suc (nat nnz)"
      using True "1.prems" by auto
    have t: "take (nat (len - a)) (drop (nat a) candidates)
        = ?c # take (nat (len - (a + 1))) (drop (nat (a + 1)) candidates)"
      using True "1.prems" unfolding n by (simp add: Cons_nth_drop_Suc[symmetric])
    have "write_loop candidates (a + 1) len (Cj[nat nnz := index ?c], Cx[nat nnz := val ?c], nnz + 1) =
      Some (blit (Cj[nat nnz := index ?c]) (nat (nnz + 1))
              (map index (take (nat (len - (a + 1))) (drop (nat (a + 1)) candidates))),
            blit (Cx[nat nnz := val ?c]) (nat (nnz + 1))
              (map val (take (nat (len - (a + 1))) (drop (nat (a + 1)) candidates))),
            nnz + 1 + (len - (a + 1)))"
      using True "1.prems" by (intro "1.hyps"[OF True r w1 w2]) auto
    moreover have "nat nnz < length Cj" "nat nnz < length Cx" using True "1.prems" by auto
    ultimately show ?thesis
      using True r w1 w2 unfolding t n(3)
      by (subst write_loop.simps) (simp add: blit_Cons)
  qed
qed

lemma std_sort_length: "std_sort srt \<Longrightarrow> length (srt xs) = length xs"
  by (metis std_sort_def size_mset)

lemma std_partial_sort_length: "std_partial_sort psrt \<Longrightarrow> n \<le> length xs \<Longrightarrow> length (psrt n xs) = length xs"
  by (metis std_partial_sort_def size_mset)

lemma length_emitted:
  assumes "std_sort srt" "std_partial_sort psrt" "0 \<le> ntop"
  shows "length (emitted srt psrt ntop cs) = min (nat ntop) (length cs)"
proof (cases "int (length cs) > ntop")
  case True
  then have "nat ntop \<le> length cs" using assms(3) by simp
  from std_partial_sort_length[OF assms(2) this] True show ?thesis
    by (simp add: emitted_def)
next
  case False
  with std_sort_length[OF assms(1)] show ?thesis by (simp add: emitted_def)
qed

lemma select_write:
  assumes "std_sort srt" "std_partial_sort psrt" "0 \<le> ntop" "0 \<le> nnz"
    and "nnz + int (length (emitted srt psrt ntop cs)) \<le> int (length Cj)"
    and "nnz + int (length (emitted srt psrt ntop cs)) \<le> int (length Cx)"
  shows "select_topn srt psrt ntop cs \<bind> (\<lambda>(candidates, len). write_loop candidates 0 len (Cj, Cx, nnz)) =
    Some (blit Cj (nat nnz) (map index (emitted srt psrt ntop cs)),
          blit Cx (nat nnz) (map val (emitted srt psrt ntop cs)),
          nnz + int (length (emitted srt psrt ntop cs)))"
proof (cases "int (length cs) > ntop")
  case True
  then have le: "nat ntop \<le> length cs" using assms(3) by simp
  note l = std_partial_sort_length[OF assms(2) le]
  have e: "emitted srt psrt ntop cs = take (nat ntop) (psrt (nat ntop) cs)"
    using True by (simp add: emitted_def)
  have len: "int (length (emitted srt psrt ntop cs)) = ntop"
    using e l le assms(3) by simp
  have "write_loop (psrt (nat ntop) cs) 0 ntop (Cj, Cx, nnz) =
    Some (blit Cj (nat nnz) (map index (take (nat (ntop - 0)) (drop (nat 0) (psrt (nat ntop) cs)))),
          blit Cx (nat nnz) (map val (take (nat (ntop - 0)) (drop (nat 0) (psrt (nat ntop) cs)))),
          nnz + (ntop - 0))"
    using assms True l len by (intro write_loop_blit) auto
  then show ?thesis
    using True assms(3) e len by (simp add: select_topn_def Let_def)
next
  case False
  note l = std_sort_length[OF assms(1), of cs]
  have e: "emitted srt psrt ntop cs = srt cs"
    using False by (simp add: emitted_def)
  have "write_loop (srt cs) 0 (int (length cs)) (Cj, Cx, nnz) =
    Some (blit Cj (nat nnz) (map index (take (nat (int (length cs) - 0)) (drop (nat 0) (srt cs)))),
          blit Cx (nat nnz) (map val (take (nat (int (length cs) - 0)) (drop (nat 0) (srt cs)))),
          nnz + (int (length cs) - 0))"
    using assms l e by (intro write_loop_blit) auto
  then show ?thesis
    using False e l by (simp add: select_topn_def Let_def)
qed

subsection \<open>The row loops of the two multiplying entry points\<close>

lemma plus_row_topn_row:
  "map_option snd (plus_row srt psrt Ap Aj Ax Bp Bj Bx ntop lower_bound i (minmax_ntop, st)) =
   topn_row srt psrt Ap Aj Ax Bp Bj Bx ntop lower_bound i st"
proof -
  obtain next' sums candidates nnz Cp Cj Cx where st: "st = (next', sums, candidates, nnz, Cp, Cj, Cx)"
    by (cases st) auto
  show ?thesis
    unfolding st
    by (simp add: Let_def split: Option.bind_split prod.split)
qed

lemma plus_rows_topn_rows:
  "map_option snd (plus_rows srt psrt Ap Aj Ax Bp Bj Bx ntop lower_bound i n_row (minmax_ntop, st)) =
   topn_rows srt psrt Ap Aj Ax Bp Bj Bx ntop lower_bound i n_row st"
proof (induction srt psrt Ap Aj Ax Bp Bj Bx ntop lower_bound i n_row st arbitrary: minmax_ntop
    rule: topn_rows.induct)
  case (1 srt psrt Ap Aj Ax Bp Bj Bx ntop lower_bound i n_row st)
  show ?case
  proof (cases "i < n_row")
    case False
    then show ?thesis
      by (subst plus_rows.simps, subst topn_rows.simps) simp
  next
    case True
    show ?thesis
    proof (cases "plus_row srt psrt Ap Aj Ax Bp Bj Bx ntop lower_bound i (minmax_ntop, st)")
      case None
      with plus_row_topn_row[of srt psrt Ap Aj Ax Bp Bj Bx ntop lower_bound i minmax_ntop st]
      have "topn_row srt psrt Ap Aj Ax Bp Bj Bx ntop lower_bound i st = None" by simp
      with None True show ?thesis
        by (subst plus_rows.simps, subst topn_rows.simps) simp
    next
      case (Some r)
      obtain mm st' where r: "r = (mm, st')" by (cases r) auto
      with Some plus_row_topn_row[of srt psrt Ap Aj Ax Bp Bj Bx ntop lower_bound i minmax_ntop st]
      have t: "topn_row srt psrt Ap Aj Ax Bp Bj Bx ntop lower_bound i st = Some st'" by simp
      from "1.IH"[OF True t, of mm] Some r t True show ?thesis
        by (subst plus_rows.simps, subst topn_rows.simps) simp
    qed
  qed
qed

lemma upto_rows_0 [simp]: "upto_rows R 0 = []"
  by (simp add: upto_rows_def)

lemma upto_rows_Suc: "upto_rows R (Suc m) = upto_rows R m @ R (int m)"
  by (simp add: upto_rows_def)

lemma upto_rows_mono: "m \<le> m' \<Longrightarrow> length (upto_rows R m) \<le> length (upto_rows R m')"
  by (induction m' rule: dec_induct) (simp_all add: upto_rows_Suc)

lemma offsets_Suc: "offsets R (Suc m) = offsets R m @ [int (length (upto_rows R (Suc m)))]"
  by (simp add: offsets_def)

lemma length_offsets [simp]: "length (offsets R m) = Suc m"
  by (simp add: offsets_def)

lemma plus_init_after:
  assumes "0 \<le> n_col" "0 < length Cp"
  shows "plus_init n_col Cp Cj Cx = Some (after_rows R W (nat n_col) Cp Cj Cx 0)"
proof -
  have "wr Cp 0 0 = Some (Cp[0 := 0])" using assms by (simp add: wr_def)
  moreover have "Cp[0 := 0] = blit Cp 0 (offsets R 0)"
    using assms by (cases Cp) (simp_all add: blit_def offsets_def)
  ultimately show ?thesis
    using assms by (simp add: plus_init_def after_rows_def Let_def blit_Nil)
qed

lemma plus_row_after:
  fixes Ax Bx :: "'v::{zero,plus,times,ord} list"
  assumes A: "csr n_row n_inner Ap Aj Ax" and B: "csr n_inner (int n) Bp Bj Bx"
    and s: "std_sort srt" and ps: "std_partial_sort psrt" and ntop: "0 \<le> ntop"
    and m: "int m < n_row"
    and R: "R = row_emitted srt psrt Ap Aj Ax Bp Bj Bx ntop lower_bound"
    and W: "W = row_width Ap Aj Ax Bp Bj Bx"
    and cap: "Suc (Suc m) \<le> length Cp" "length (upto_rows R (Suc m)) \<le> length Cj"
      "length (upto_rows R (Suc m)) \<le> length Cx"
  shows "plus_row srt psrt Ap Aj Ax Bp Bj Bx ntop lower_bound (int m) (after_rows R W n Cp Cj Cx m) =
    Some (after_rows R W n Cp Cj Cx (Suc m))"
proof -
  let ?kps = "row_products Ap Aj Ax Bp Bj Bx (int m)"
  let ?E = "upto_rows R m"
  have keys: "\<forall>kp \<in> set ?kps. 0 \<le> fst kp \<and> fst kp < int n"
    using A B m by (intro row_products_keys[where n_row = n_row and n_inner = n_inner]) auto
  obtain next' sums head length' where
    f: "foldl touch (replicate n (- 1), replicate n 0, - 2, 0) ?kps = (next', sums, head, length')"
    by (cases "foldl touch (replicate n (- 1), replicate n 0 :: 'v list, - 2, 0) ?kps") auto
  have acc: "accumulate Ap Aj Ax Bp Bj Bx (int m) (replicate n (- 1)) (replicate n 0) =
      Some (next', sums, head, length')"
    using A B m f by (subst accumulate_foldl[where n_row = n_row and n_inner = n_inner and n = n]) auto
  note w = walk_clean(1)[OF keys f] walk_clean(2)[OF keys f, of lower_bound]
  have Rm: "R (int m) = emitted srt psrt ntop (row_candidates lower_bound ?kps)"
    by (simp add: R row_emitted_def)
  have sw: "select_topn srt psrt ntop (row_candidates lower_bound ?kps) \<bind>
      (\<lambda>(candidates, len). write_loop candidates 0 len
          (blit Cj 0 (map index ?E), blit Cx 0 (map val ?E), int (length ?E))) =
      Some (blit (blit Cj 0 (map index ?E)) (nat (int (length ?E))) (map index (R (int m))),
            blit (blit Cx 0 (map val ?E)) (nat (int (length ?E))) (map val (R (int m))),
            int (length ?E) + int (length (R (int m))))"
    unfolding Rm using s ps ntop cap
    by (intro select_write) (simp_all add: length_blit upto_rows_Suc Rm)
  have b1: "blit (blit Cj 0 (map index ?E)) (nat (int (length ?E))) (map index (R (int m)))
      = blit Cj 0 (map index (upto_rows R (Suc m)))"
    using cap blit_blit[of "map index ?E" Cj "map index (R (int m))"]
    by (simp add: upto_rows_Suc)
  have b2: "blit (blit Cx 0 (map val ?E)) (nat (int (length ?E))) (map val (R (int m)))
      = blit Cx 0 (map val (upto_rows R (Suc m)))"
    using cap blit_blit[of "map val ?E" Cx "map val (R (int m))"]
    by (simp add: upto_rows_Suc)
  have wp: "wr (blit Cp 0 (offsets R m)) (int m + 1) (int (length (upto_rows R (Suc m)))) =
      Some (blit Cp 0 (offsets R (Suc m)))"
  proof -
    have "nat (int m + 1) = length (offsets R m)" by simp
    moreover have "length (offsets R m) < length Cp" using cap by simp
    ultimately show ?thesis
      using blit_snoc[of "offsets R m" Cp "int (length (upto_rows R (Suc m)))"]
      by (simp add: wr_def length_blit offsets_Suc)
  qed
  have wd: "length' = W (int m)"
    using w(1) by (simp add: W row_width_def)
  from sw obtain cs' len where sel: "select_topn srt psrt ntop (row_candidates lower_bound ?kps) = Some (cs', len)"
    and wl: "write_loop cs' 0 len (blit Cj 0 (map index ?E), blit Cx 0 (map val ?E), int (length ?E)) =
      Some (blit Cj 0 (map index (upto_rows R (Suc m))), blit Cx 0 (map val (upto_rows R (Suc m))),
            int (length ?E) + int (length (R (int m))))"
    unfolding b1 b2 by (auto simp: bind_eq_Some_conv)
  show ?thesis
    using acc w(2) sel wl wp wd
    by (simp add: after_rows_def upto_rows_Suc)
qed

lemma plus_rows_after:
  fixes Ax Bx :: "'v::{zero,plus,times,ord} list"
  assumes A: "csr n_row n_inner Ap Aj Ax" and B: "csr n_inner (int n) Bp Bj Bx"
    and s: "std_sort srt" and ps: "std_partial_sort psrt" and ntop: "0 \<le> ntop"
    and R: "R = row_emitted srt psrt Ap Aj Ax Bp Bj Bx ntop lower_bound"
    and W: "W = row_width Ap Aj Ax Bp Bj Bx"
    and cap: "Suc N \<le> length Cp" "length (upto_rows R N) \<le> length Cj"
      "length (upto_rows R N) \<le> length Cx"
    and N: "int N \<le> n_row" and m: "m \<le> N"
  shows "plus_rows srt psrt Ap Aj Ax Bp Bj Bx ntop lower_bound (int m) (int N) (after_rows R W n Cp Cj Cx m) =
    Some (after_rows R W n Cp Cj Cx N)"
  using m
proof (induction "N - m" arbitrary: m)
  case 0
  then have "m = N" by simp
  then show ?case by (subst plus_rows.simps) simp
next
  case (Suc d)
  then have lt: "m < N" and d: "d = N - Suc m" and le: "Suc m \<le> N" by auto
  have step: "plus_row srt psrt Ap Aj Ax Bp Bj Bx ntop lower_bound (int m) (after_rows R W n Cp Cj Cx m) =
      Some (after_rows R W n Cp Cj Cx (Suc m))"
    using lt N cap upto_rows_mono[OF le, of R]
    by (intro plus_row_after[OF A B s ps ntop _ R W]) auto
  have "plus_rows srt psrt Ap Aj Ax Bp Bj Bx ntop lower_bound (int m + 1) (int N)
      (after_rows R W n Cp Cj Cx (Suc m)) = Some (after_rows R W n Cp Cj Cx N)"
    using Suc.hyps(1)[OF d le] by (simp add: add.commute)
  with step lt show ?case
    by (subst plus_rows.simps) simp
qed

lemma length_upto_rows_emitted:
  assumes "std_sort srt" "std_partial_sort psrt" "0 \<le> ntop"
  shows "length (upto_rows (row_emitted srt psrt Ap Aj Ax Bp Bj Bx ntop lower_bound) m) =
    total_emitted Ap Aj Ax Bp Bj Bx ntop lower_bound m"
  by (induction m)
    (simp_all add: upto_rows_Suc total_emitted_def row_emitted_def length_emitted[OF assms])

lemma plus_closed:
  fixes Ax Bx :: "'v::{zero,plus,times,ord} list"
  assumes v: "valid_input n_row n_inner n_col Ap Aj Ax Bp Bj Bx"
    and s: "std_sort srt" and ps: "std_partial_sort psrt" and ntop: "0 \<le> ntop"
    and room: "room n_row Ap Aj Ax Bp Bj Bx ntop lower_bound Cp Cj Cx"
    and R: "R = row_emitted srt psrt Ap Aj Ax Bp Bj Bx ntop lower_bound"
    and W: "W = row_width Ap Aj Ax Bp Bj Bx"
    and m: "0 \<le> m" "m \<le> n_row"
  shows "plus_init n_col Cp Cj Cx = Some (after_rows R W (nat n_col) Cp Cj Cx 0)"
    and "plus_rows srt psrt Ap Aj Ax Bp Bj Bx ntop lower_bound 0 m (after_rows R W (nat n_col) Cp Cj Cx 0) =
      Some (after_rows R W (nat n_col) Cp Cj Cx (nat m))"
proof -
  from v have A: "csr n_row n_inner Ap Aj Ax" and B: "csr n_inner (int (nat n_col)) Bp Bj Bx"
    and c: "0 \<le> n_col"
    by (simp_all add: valid_input_def)
  have le: "nat m \<le> nat n_row" using m by simp
  have cap: "Suc (nat m) \<le> length Cp" "length (upto_rows R (nat m)) \<le> length Cj"
    "length (upto_rows R (nat m)) \<le> length Cx"
    using room le upto_rows_mono[OF le, of R]
    unfolding R length_upto_rows_emitted[OF s ps ntop] room_def by simp_all
  show "plus_init n_col Cp Cj Cx = Some (after_rows R W (nat n_col) Cp Cj Cx 0)"
    using c cap by (intro plus_init_after) auto
  have "plus_rows srt psrt Ap Aj Ax Bp Bj Bx ntop lower_bound (int 0) (int (nat m))
      (after_rows R W (nat n_col) Cp Cj Cx 0) = Some (after_rows R W (nat n_col) Cp Cj Cx (nat m))"
    using m cap by (intro plus_rows_after[OF A B s ps ntop R W]) auto
  then show "plus_rows srt psrt Ap Aj Ax Bp Bj Bx ntop lower_bound 0 m (after_rows R W (nat n_col) Cp Cj Cx 0) =
      Some (after_rows R W (nat n_col) Cp Cj Cx (nat m))"
    using m by simp
qed

lemma plus_result:
  fixes Ax Bx :: "'v::{zero,plus,times,ord} list"
  assumes v: "valid_input n_row n_inner n_col Ap Aj Ax Bp Bj Bx"
    and s: "std_sort srt" and ps: "std_partial_sort psrt" and ntop: "0 \<le> ntop"
    and room: "room n_row Ap Aj Ax Bp Bj Bx ntop lower_bound Cp Cj Cx"
    and R: "R = row_emitted srt psrt Ap Aj Ax Bp Bj Bx ntop lower_bound"
    and W: "W = row_width Ap Aj Ax Bp Bj Bx"
  shows "sparse_dot_plus_minmax_topn_source srt psrt n_row n_col Ap Aj Ax Bp Bj Bx ntop lower_bound Cp Cj Cx =
    Some (blit Cp 0 (offsets R (nat n_row)), blit Cj 0 (map index (upto_rows R (nat n_row))),
          blit Cx 0 (map val (upto_rows R (nat n_row))), widest W (nat n_row))"
proof -
  from v have "0 \<le> n_row" by (simp add: valid_input_def csr_def)
  from plus_closed[OF v s ps ntop room R W this] show ?thesis
    by (simp add: sparse_dot_plus_minmax_topn_source_def after_rows_def)
qed

lemma plus_init_topn_init: "map_option snd (plus_init n_col Cp Cj Cx) = topn_init n_col Cp Cj Cx"
  by (simp add: plus_init_def topn_init_def Let_def split: Option.bind_split)

lemma plus_topn:
  "map_option (\<lambda>(Cp, Cj, Cx, minmax_ntop). (Cp, Cj, Cx))
     (sparse_dot_plus_minmax_topn_source srt psrt n_row n_col Ap Aj Ax Bp Bj Bx ntop lower_bound Cp Cj Cx) =
   sparse_dot_topn_source srt psrt n_row n_col Ap Aj Ax Bp Bj Bx ntop lower_bound Cp Cj Cx"
proof (cases "plus_init n_col Cp Cj Cx")
  case None
  with plus_init_topn_init[of n_col Cp Cj Cx] have "topn_init n_col Cp Cj Cx = None" by simp
  with None show ?thesis
    by (simp add: sparse_dot_plus_minmax_topn_source_def sparse_dot_topn_source_def)
next
  case (Some r)
  obtain mm st where r: "r = (mm, st)" by (cases r) auto
  with Some plus_init_topn_init[of n_col Cp Cj Cx] have t: "topn_init n_col Cp Cj Cx = Some st" by simp
  note p = plus_rows_topn_rows[of srt psrt Ap Aj Ax Bp Bj Bx ntop lower_bound 0 n_row mm st]
  show ?thesis
  proof (cases "plus_rows srt psrt Ap Aj Ax Bp Bj Bx ntop lower_bound 0 n_row (mm, st)")
    case None
    with p have "topn_rows srt psrt Ap Aj Ax Bp Bj Bx ntop lower_bound 0 n_row st = None" by simp
    with None Some r t show ?thesis
      by (simp add: sparse_dot_plus_minmax_topn_source_def sparse_dot_topn_source_def)
  next
    case (Some r')
    obtain mm' next' sums candidates nnz Cp' Cj' Cx' where
      r': "r' = (mm', next', sums, candidates, nnz, Cp', Cj', Cx')"
      by (cases r') auto
    with Some p have "topn_rows srt psrt Ap Aj Ax Bp Bj Bx ntop lower_bound 0 n_row st =
        Some (next', sums, candidates, nnz, Cp', Cj', Cx')" by simp
    with Some r' \<open>plus_init n_col Cp Cj Cx = Some r\<close> r t show ?thesis
      by (simp add: sparse_dot_plus_minmax_topn_source_def sparse_dot_topn_source_def)
  qed
qed

lemma topn_result:
  fixes Ax Bx :: "'v::{zero,plus,times,ord} list"
  assumes v: "valid_input n_row n_inner n_col Ap Aj Ax Bp Bj Bx"
    and s: "std_sort srt" and ps: "std_partial_sort psrt" and ntop: "0 \<le> ntop"
    and room: "room n_row Ap Aj Ax Bp Bj Bx ntop lower_bound Cp Cj Cx"
    and R: "R = row_emitted srt psrt Ap Aj Ax Bp Bj Bx ntop lower_bound"
  shows "sparse_dot_topn_source srt psrt n_row n_col Ap Aj Ax Bp Bj Bx ntop lower_bound Cp Cj Cx =
    Some (blit Cp 0 (offsets R (nat n_row)), blit Cj 0 (map index (upto_rows R (nat n_row))),
          blit Cx 0 (map val (upto_rows R (nat n_row))))"
  using plus_result[OF v s ps ntop room R refl]
    plus_topn[of srt psrt n_row n_col Ap Aj Ax Bp Bj Bx ntop lower_bound Cp Cj Cx]
  by simp

lemma upto_rows_split:
  assumes "i < N"
  shows "\<exists>rest. upto_rows R N = upto_rows R i @ R (int i) @ rest"
proof -
  have "[0..<N] = [0..<i] @ i # [Suc i..<N]"
    using assms by (metis le_add_diff_inverse less_imp_le_nat upt_add_eq_append upt_conv_Cons zero_le)
  then show ?thesis by (simp add: upto_rows_def)
qed

lemma out_row_blit:
  assumes i: "i < N" and cap: "Suc N \<le> length Cp" "length (upto_rows R N) \<le> length Cj"
    "length (upto_rows R N) \<le> length Cx"
  shows "out_row (blit Cp 0 (offsets R N)) (blit Cj 0 (map index (upto_rows R N)))
      (blit Cx 0 (map val (upto_rows R N))) (int i) =
    map (\<lambda>c. (index c, val c)) (R (int i))"
    and "blit Cp 0 (offsets R N) ! i = int (length (upto_rows R i))"
    and "blit Cp 0 (offsets R N) ! Suc i = int (length (upto_rows R i)) + int (length (R (int i)))"
proof -
  let ?o = "length (upto_rows R i)" and ?l = "length (R (int i))"
  show p0: "blit Cp 0 (offsets R N) ! i = int ?o"
    using i by (simp add: nth_blit offsets_def nth_append del: upt_Suc)
  show p1: "blit Cp 0 (offsets R N) ! Suc i = int ?o + int ?l"
    using i by (simp add: nth_blit offsets_def upto_rows_Suc del: upt_Suc)
  from upto_rows_split[OF i, of R] obtain rest where
    sp: "upto_rows R N = upto_rows R i @ R (int i) @ rest" by blast
  have n1: "nat (int i) = i" "nat (int i + 1) = Suc i" by simp_all
  show "out_row (blit Cp 0 (offsets R N)) (blit Cj 0 (map index (upto_rows R N)))
      (blit Cx 0 (map val (upto_rows R N))) (int i) =
    map (\<lambda>c. (index c, val c)) (R (int i))"
    unfolding out_row_def n1 p0 p1
  proof (rule nth_equalityI)
    show "length (map (\<lambda>p. (blit Cj 0 (map index (upto_rows R N)) ! nat p,
        blit Cx 0 (map val (upto_rows R N)) ! nat p)) [int ?o..int ?o + int ?l - 1]) =
      length (map (\<lambda>c. (index c, val c)) (R (int i)))"
      by simp
  next
    fix q assume "q < length (map (\<lambda>p. (blit Cj 0 (map index (upto_rows R N)) ! nat p,
        blit Cx 0 (map val (upto_rows R N)) ! nat p)) [int ?o..int ?o + int ?l - 1])"
    then have q: "q < ?l" by simp
    then have u: "[int ?o..int ?o + int ?l - 1] ! q = int ?o + int q"
      by (intro nth_upto) simp
    have lt: "?o + q < length (upto_rows R N)" using q sp by simp
    have e: "upto_rows R N ! (?o + q) = R (int i) ! q"
      using q by (simp add: sp nth_append)
    have "nat (int ?o + int q) = ?o + q" by simp
    then show "map (\<lambda>p. (blit Cj 0 (map index (upto_rows R N)) ! nat p,
        blit Cx 0 (map val (upto_rows R N)) ! nat p)) [int ?o..int ?o + int ?l - 1] ! q =
      map (\<lambda>c. (index c, val c)) (R (int i)) ! q"
      using q lt e u by (simp add: nth_blit)
  qed
qed

subsection \<open>The accumulated sum is the element of the product\<close>

lemma map_fst_row_products: "map fst (row_products Ap Aj Ax Bp Bj Bx i) = reach Ap Aj Bp Bj i"
  by (simp add: row_products_def products_def cells_def reach_def map_concat comp_def)

lemma row_width_reach: "row_width Ap Aj Ax Bp Bj Bx i = int (card (set (reach Ap Aj Bp Bj i)))"
proof -
  have "set (columns (row_products Ap Aj Ax Bp Bj Bx i)) = set (reach Ap Aj Bp Bj i)"
    using arg_cong[OF map_fst_row_products, of set Ap Aj Ax Bp Bj Bx i] by (simp add: set_columns)
  then show ?thesis
    using distinct_card[OF distinct_columns, of "row_products Ap Aj Ax Bp Bj Bx i"]
    by (simp add: row_width_def)
qed

lemma foldl_plus_sum_list: "foldl (+) a xs = a + sum_list (xs :: 'v::monoid_add list)"
  by (induction xs arbitrary: a) (simp_all add: add.assoc)

lemma total_sum_list: "total kps k = sum_list (map snd (filter (\<lambda>kp. fst kp = k) kps))"
  for kps :: "(int \<times> 'v::monoid_add) list"
  by (simp add: total_def foldl_plus_sum_list)

lemma sum_list_delta:
  "distinct js \<Longrightarrow> a \<in> set js \<Longrightarrow> sum_list (map (\<lambda>j. if a = j then c else 0) js) = (c :: 'v::comm_monoid_add)"
proof (induction js)
  case Nil
  then show ?case by simp
next
  case (Cons j js)
  show ?case
  proof (cases "a = j")
    case True
    then have "a \<notin> set js" using Cons.prems by simp
    then have "sum_list (map (\<lambda>j. if a = j then c else 0) js) = 0"
      by (induction js) auto
    with True show ?thesis by simp
  next
    case False
    with Cons show ?thesis by simp
  qed
qed

lemma sum_list_grouped:
  fixes g :: "'a \<Rightarrow> 'v::comm_monoid_add"
  assumes "distinct js" "\<forall>x \<in> set xs. key x \<in> set js"
  shows "sum_list (map (\<lambda>j. sum_list (map g (filter (\<lambda>x. key x = j) xs))) js) = sum_list (map g xs)"
  using assms(2)
proof (induction xs)
  case Nil
  show ?case by simp
next
  case (Cons x xs)
  have "sum_list (map (\<lambda>j. sum_list (map g (filter (\<lambda>x. key x = j) (x # xs)))) js)
      = sum_list (map (\<lambda>j. (if key x = j then g x else 0) + sum_list (map g (filter (\<lambda>x. key x = j) xs))) js)"
    by (intro arg_cong[where f = sum_list] map_cong) auto
  also have "\<dots> = sum_list (map (\<lambda>j. if key x = j then g x else 0) js)
      + sum_list (map (\<lambda>j. sum_list (map g (filter (\<lambda>x. key x = j) xs))) js)"
    by (simp add: sum_list_addf)
  also have "\<dots> = g x + sum_list (map g xs)"
    using Cons sum_list_delta[OF assms(1), of "key x" "g x"] by simp
  finally show ?case by simp
qed

lemma sum_list_concat_map: "sum_list (concat xss) = sum_list (map sum_list xss)"
  for xss :: "'v::monoid_add list list"
  by (induction xss) simp_all

lemma cells_total:
  fixes Bx :: "'v::comm_semiring_0 list"
  shows "sum_list (map snd (filter (\<lambda>kp. fst kp = k) (cells Bj Bx v (Bp ! nat j) (Bp ! nat (j + 1)))))
    = v * entry Bp Bj Bx j k"
  by (simp add: cells_def entry_def filter_map comp_def sum_list_const_mult)

lemma total_dot:
  fixes Ax Bx :: "'v::comm_semiring_0 list"
  assumes A: "csr n_row n_inner Ap Aj Ax" and i: "0 \<le> i" "i < n_row"
  shows "total (row_products Ap Aj Ax Bp Bj Bx i) k = dot n_inner Ap Aj Ax Bp Bj Bx i k"
proof -
  let ?row = "[Ap ! nat i..Ap ! nat (i + 1) - 1]"
  let ?g = "\<lambda>jj. Ax ! nat jj * entry Bp Bj Bx (Aj ! nat jj) k"
  note row = csr_row[OF A i]
  have "total (row_products Ap Aj Ax Bp Bj Bx i) k = sum_list (map ?g ?row)"
    unfolding total_sum_list row_products_def products_def
    by (simp add: filter_concat map_concat sum_list_concat_map comp_def cells_total)
  moreover have "dot n_inner Ap Aj Ax Bp Bj Bx i k =
      sum_list (map (\<lambda>j. sum_list (map ?g (filter (\<lambda>jj. Aj ! nat jj = j) ?row))) [0..n_inner - 1])"
  proof -
    have "entry Ap Aj Ax i j * entry Bp Bj Bx j k = sum_list (map ?g (filter (\<lambda>jj. Aj ! nat jj = j) ?row))" for j
    proof -
      have "entry Ap Aj Ax i j * entry Bp Bj Bx j k
          = sum_list (map (\<lambda>jj. Ax ! nat jj * entry Bp Bj Bx j k) (filter (\<lambda>jj. Aj ! nat jj = j) ?row))"
        by (simp add: entry_def sum_list_mult_const)
      also have "\<dots> = sum_list (map ?g (filter (\<lambda>jj. Aj ! nat jj = j) ?row))"
        by (intro arg_cong[where f = sum_list] map_cong) auto
      finally show ?thesis .
    qed
    then show ?thesis by (simp add: dot_def)
  qed
  moreover have "sum_list (map (\<lambda>j. sum_list (map ?g (filter (\<lambda>jj. Aj ! nat jj = j) ?row))) [0..n_inner - 1])
      = sum_list (map ?g ?row)"
    using row(5) by (intro sum_list_grouped) auto
  ultimately show ?thesis by simp
qed

lemma widest_Max: "widest W m = Max (insert 0 (W ` int ` {0..<m}))"
proof (induction m)
  case 0
  show ?case by simp
next
  case (Suc m)
  have "int ` {0..<Suc m} = insert (int m) (int ` {0..<m})" by (auto simp: less_Suc_eq)
  then have "Max (insert 0 (W ` int ` {0..<Suc m})) = Max (insert (W (int m)) (insert 0 (W ` int ` {0..<m})))"
    by (simp add: insert_commute)
  also have "\<dots> = max (W (int m)) (Max (insert 0 (W ` int ` {0..<m})))"
    by (rule Max_insert) auto
  finally have e: "Max (insert 0 (W ` int ` {0..<Suc m})) = max (W (int m)) (Max (insert 0 (W ` int ` {0..<m})))" .
  have h: "widest W (Suc m) = max (W (int m)) (widest W m)" by (simp add: max_def)
  show ?case by (simp only: e h Suc.IH)
qed

lemma int_image_upt: "0 \<le> n \<Longrightarrow> int ` {0..<nat n} = {0..<n}"
  by (simp add: image_int_atLeastLessThan)

subsection \<open>The insertion sort meets the contracts; what a selection keeps\<close>

lemma mset_insert_desc: "mset (insert_desc c cs) = add_mset c (mset cs)"
  by (induction cs) simp_all

lemma mset_sort_desc: "mset (sort_desc cs) = mset cs"
  by (induction cs) (simp_all add: mset_insert_desc)

lemma set_insert_desc: "set (insert_desc c cs) = insert c (set cs)"
  by (induction cs) auto

lemma ordered_insert_desc: "ordered cs \<Longrightarrow> ordered (insert_desc c cs)"
  by (induction cs) (auto simp: ordered_def candidate_cmp_def set_insert_desc)

lemma ordered_sort_desc: "ordered (sort_desc cs)"
  by (induction cs) (simp_all add: ordered_insert_desc, simp add: ordered_def)

lemma std_sort_sort_desc: "std_sort sort_desc"
  by (simp add: std_sort_def mset_sort_desc ordered_sort_desc)

lemma ordered_take: "ordered cs \<Longrightarrow> ordered (take n cs)"
  unfolding ordered_def by (rule sorted_wrt_take)

lemma ordered_append_D: "ordered (xs @ ys) \<Longrightarrow> a \<in> set xs \<Longrightarrow> b \<in> set ys \<Longrightarrow> \<not> candidate_cmp b a"
  by (auto simp: ordered_def sorted_wrt_append)

lemma std_partial_sort_partial_sort_desc: "std_partial_sort partial_sort_desc"
proof -
  have "\<not> candidate_cmp b a"
    if "a \<in> set (take n (sort_desc xs))" "b \<in> set (drop n (sort_desc xs))" for n xs and a b :: "'a candidate"
    using ordered_append_D[of "take n (sort_desc xs)" "drop n (sort_desc xs)" a b] that
    by (simp add: ordered_sort_desc)
  then show ?thesis
    by (simp add: std_partial_sort_def partial_sort_desc_def mset_sort_desc ordered_take ordered_sort_desc)
qed

text \<open>What the selection keeps of a row's candidates.\<close>

lemma emitted_sub:
  assumes "std_sort srt" "std_partial_sort psrt" "0 \<le> ntop"
  shows "mset (emitted srt psrt ntop cs) \<subseteq># mset cs"
proof (cases "int (length cs) > ntop")
  case True
  then have le: "nat ntop \<le> length cs" using assms(3) by simp
  have "mset (take (nat ntop) (psrt (nat ntop) cs)) \<subseteq># mset (psrt (nat ntop) cs)"
    by (metis append_take_drop_id mset_append mset_subset_eq_add_left)
  moreover have "mset (psrt (nat ntop) cs) = mset cs"
    using assms(2) le by (simp add: std_partial_sort_def)
  ultimately show ?thesis using True by (simp add: emitted_def)
next
  case False
  then show ?thesis using assms(1) by (simp add: emitted_def std_sort_def)
qed

lemma emitted_ordered:
  assumes "std_sort srt" "std_partial_sort psrt" "0 \<le> ntop"
  shows "ordered (emitted srt psrt ntop cs)"
proof (cases "int (length cs) > ntop")
  case True
  then have le: "nat ntop \<le> length cs" using assms(3) by simp
  then show ?thesis using True assms(2) by (simp add: emitted_def std_partial_sort_def)
next
  case False
  then show ?thesis using assms(1) by (simp add: emitted_def std_sort_def)
qed

lemma emitted_best:
  assumes "std_sort srt" "std_partial_sort psrt" "0 \<le> ntop"
    and "a \<in> set (emitted srt psrt ntop cs)" "b \<in> set cs" "b \<notin> set (emitted srt psrt ntop cs)"
  shows "\<not> candidate_cmp b a"
proof (cases "int (length cs) > ntop")
  case True
  then have le: "nat ntop \<le> length cs" using assms(3) by simp
  let ?ps = "psrt (nat ntop) cs"
  have e: "emitted srt psrt ntop cs = take (nat ntop) ?ps" using True by (simp add: emitted_def)
  have "set ?ps = set cs"
    using assms(2) le by (metis std_partial_sort_def mset_eq_setD)
  then have "b \<in> set (take (nat ntop) ?ps) \<union> set (drop (nat ntop) ?ps)"
    using assms(5) by (metis append_take_drop_id set_append)
  then have "b \<in> set (drop (nat ntop) ?ps)" using assms(6) e by simp
  then show ?thesis using assms(2,4) le e by (simp add: std_partial_sort_def)
next
  case False
  then have "set (emitted srt psrt ntop cs) = set cs"
    using assms(1) by (metis emitted_def std_sort_def mset_eq_setD)
  then show ?thesis using assms(5,6) by simp
qed

subsection \<open>Candidates, pairs and row pointers\<close>

lemma inj_pair: "inj pair"
  by (rule injI) (simp add: pair_def)

lemma emitted_distinct:
  assumes "std_sort srt" "std_partial_sort psrt" "0 \<le> ntop" "distinct cs"
  shows "distinct (emitted srt psrt ntop cs)"
proof (cases "int (length cs) > ntop")
  case True
  then have le: "nat ntop \<le> length cs" using assms(3) by simp
  have "mset (psrt (nat ntop) cs) = mset cs"
    using assms(2) le by (simp add: std_partial_sort_def)
  from mset_eq_imp_distinct_iff[OF this] assms(4) True show ?thesis
    by (simp add: emitted_def)
next
  case False
  have "mset (srt cs) = mset cs" using assms(1) by (simp add: std_sort_def)
  from mset_eq_imp_distinct_iff[OF this] assms(4) False show ?thesis
    by (simp add: emitted_def)
qed

lemma distinct_row_candidates: "distinct (row_candidates lower_bound kps)"
proof -
  have "inj_on (\<lambda>k. \<lparr>index = k, val = total kps k\<rparr>) (set (columns kps))"
    by (rule inj_onI) simp
  then have "distinct (map (\<lambda>k. \<lparr>index = k, val = total kps k\<rparr>) (columns kps))"
    by (simp add: distinct_map distinct_columns)
  then show ?thesis by (simp add: row_candidates_def)
qed

lemma pair_row_candidates:
  "pair ` set (row_candidates lower_bound kps) =
     {(k, total kps k) | k. k \<in> fst ` set kps \<and> total kps k > lower_bound}"
proof (intro set_eqI iffI)
  fix x assume "x \<in> pair ` set (row_candidates lower_bound kps)"
  then obtain c where c: "c \<in> set (row_candidates lower_bound kps)" "x = pair c" by blast
  then obtain k where "k \<in> set (columns kps)" "c = \<lparr>index = k, val = total kps k\<rparr>"
    "val c > lower_bound"
    by (auto simp: row_candidates_def)
  then show "x \<in> {(k, total kps k) | k. k \<in> fst ` set kps \<and> total kps k > lower_bound}"
    using c by (simp add: pair_def set_columns)
next
  fix x assume "x \<in> {(k, total kps k) | k. k \<in> fst ` set kps \<and> total kps k > lower_bound}"
  then obtain k where k: "x = (k, total kps k)" "k \<in> fst ` set kps" "total kps k > lower_bound"
    by blast
  then have "\<lparr>index = k, val = total kps k\<rparr> \<in> set (row_candidates lower_bound kps)"
    by (simp add: row_candidates_def set_columns)
  then have "pair \<lparr>index = k, val = total kps k\<rparr> \<in> pair ` set (row_candidates lower_bound kps)"
    by (rule imageI)
  then show "x \<in> pair ` set (row_candidates lower_bound kps)"
    using k by (simp add: pair_def)
qed

lemma row_candidates_over_bound:
  fixes Ax Bx :: "'v::{comm_semiring_0,ord} list"
  assumes v: "valid_input n_row n_inner n_col Ap Aj Ax Bp Bj Bx" and i: "0 \<le> i" "i < n_row"
  shows "pair ` set (row_candidates lower_bound (row_products Ap Aj Ax Bp Bj Bx i)) =
    {kv \<in> set (over_bound n_inner n_col Ap Aj Ax Bp Bj Bx lower_bound i). fst kv \<in> set (reach Ap Aj Bp Bj i)}"
proof -
  let ?kps = "row_products Ap Aj Ax Bp Bj Bx i"
  from v have A: "csr n_row n_inner Ap Aj Ax" and B: "csr n_inner n_col Bp Bj Bx"
    by (simp_all add: valid_input_def)
  have t: "total ?kps k = dot n_inner Ap Aj Ax Bp Bj Bx i k" for k
    by (rule total_dot[OF A i])
  have r: "fst ` set ?kps = set (reach Ap Aj Bp Bj i)"
    using arg_cong[OF map_fst_row_products, of set Ap Aj Ax Bp Bj Bx i] by simp
  have k: "0 \<le> k \<and> k < n_col" if "k \<in> set (reach Ap Aj Bp Bj i)" for k
    using row_products_keys[OF A B i] that unfolding r[symmetric] by auto
  show ?thesis
    unfolding pair_row_candidates r t over_bound_def using k by auto
qed

lemma take_blit: "take (length ys) (blit xs 0 ys) = ys"
  by (simp add: blit_def)

lemma drop_blit: "drop (length ys) (blit xs 0 ys) = drop (length ys) xs"
  by (simp add: blit_def)

lemma sorted_offsets: "sorted (offsets R N)"
proof (induction N)
  case 0
  show ?case by (simp add: offsets_def)
next
  case (Suc N)
  have "y \<le> int (length (upto_rows R (Suc N)))" if "y \<in> set (offsets R N)" for y
  proof -
    from that obtain r where "r < Suc N" "y = int (length (upto_rows R r))"
      by (auto simp: offsets_def simp del: upt_Suc)
    then show ?thesis using upto_rows_mono[of r "Suc N" R] by simp
  qed
  with Suc show ?case by (simp add: offsets_Suc sorted_append)
qed

lemma nth_offsets: "r \<le> N \<Longrightarrow> offsets R N ! r = int (length (upto_rows R r))"
  unfolding offsets_def by (subst nth_map) (simp_all del: upt_Suc)

lemma set_upto_rows: "set (upto_rows R N) = (\<Union>i \<in> {0..<N}. set (R (int i)))"
  by (simp add: upto_rows_def)

lemma room_upto_rows:
  fixes Ax Bx :: "'v::{zero,plus,times,ord} list"
  assumes "std_sort srt" "std_partial_sort psrt" "0 \<le> ntop"
    and "room n_row Ap Aj Ax Bp Bj Bx ntop lower_bound Cp Cj Cx"
    and "R = row_emitted srt psrt Ap Aj Ax Bp Bj Bx ntop lower_bound"
  shows "Suc (nat n_row) \<le> length Cp" "length (upto_rows R (nat n_row)) \<le> length Cj"
    "length (upto_rows R (nat n_row)) \<le> length Cx"
  using assms(4) unfolding assms(5) length_upto_rows_emitted[OF assms(1-3)] room_def by simp_all

lemma out_row_result:
  fixes Ax Bx :: "'v::{zero,plus,times,ord} list"
  assumes s: "std_sort srt" and ps: "std_partial_sort psrt" and ntop: "0 \<le> ntop"
    and room: "room n_row Ap Aj Ax Bp Bj Bx ntop lower_bound Cp Cj Cx"
    and R: "R = row_emitted srt psrt Ap Aj Ax Bp Bj Bx ntop lower_bound"
    and i: "0 \<le> i" "i < n_row"
    and out: "Cp' = blit Cp 0 (offsets R (nat n_row))" "Cj' = blit Cj 0 (map index (upto_rows R (nat n_row)))"
      "Cx' = blit Cx 0 (map val (upto_rows R (nat n_row)))"
  shows "out_row Cp' Cj' Cx' i = map pair (R i)"
    and "Cp' ! nat i = int (length (upto_rows R (nat i)))"
    and "Cp' ! nat (i + 1) = Cp' ! nat i + int (length (R i))"
proof -
  note cap = room_upto_rows[OF s ps ntop room R]
  have lt: "nat i < nat n_row" using i by simp
  have e: "int (nat i) = i" "nat (i + 1) = Suc (nat i)" using i by simp_all
  note o = out_row_blit[OF lt cap, unfolded e]
  show "out_row Cp' Cj' Cx' i = map pair (R i)"
    unfolding out using o(1) by (simp add: pair_def[abs_def])
  show p: "Cp' ! nat i = int (length (upto_rows R (nat i)))"
    unfolding out by (rule o(2))
  show "Cp' ! nat (i + 1) = Cp' ! nat i + int (length (R i))"
    unfolding p unfolding out e by (rule o(3))
qed

lemma row_emitted_facts:
  fixes Ax Bx :: "'v::{zero,plus,times,ord} list"
  assumes s: "std_sort srt" and ps: "std_partial_sort psrt" and ntop: "0 \<le> ntop"
    and R: "R = row_emitted srt psrt Ap Aj Ax Bp Bj Bx ntop lower_bound"
  shows "ordered (R i)"
    and "set (R i) \<subseteq> set (row_candidates lower_bound (row_products Ap Aj Ax Bp Bj Bx i))"
    and "int (length (R i)) \<le> ntop"
    and "distinct (R i)"
    and "length (R i) = min (nat ntop) (length (row_candidates lower_bound (row_products Ap Aj Ax Bp Bj Bx i)))"
proof -
  let ?cs = "row_candidates lower_bound (row_products Ap Aj Ax Bp Bj Bx i)"
  have Ri: "R i = emitted srt psrt ntop ?cs" by (simp add: R row_emitted_def)
  show "ordered (R i)" unfolding Ri by (rule emitted_ordered[OF s ps ntop])
  show "set (R i) \<subseteq> set ?cs"
    unfolding Ri using set_mset_mono[OF emitted_sub[OF s ps ntop, of ?cs]] by simp
  show "length (R i) = min (nat ntop) (length ?cs)"
    unfolding Ri by (rule length_emitted[OF s ps ntop])
  then show "int (length (R i)) \<le> ntop" using ntop by simp
  show "distinct (R i)"
    unfolding Ri by (rule emitted_distinct[OF s ps ntop distinct_row_candidates])
qed

lemma ordered_vals: "ordered cs \<Longrightarrow> sorted_wrt (\<lambda>x y. x \<ge> y) (map val cs)"
  for cs :: "'v::linorder candidate list"
  by (simp add: ordered_def candidate_cmp_def sorted_wrt_map not_less)

subsection \<open>Selections are top-n; the row loops can be cut at any row\<close>

lemma top_n_emitted:
  fixes cs :: "'v::linorder candidate list"
  assumes s: "std_sort srt" and ps: "std_partial_sort psrt" and ntop: "0 \<le> ntop" and d: "distinct cs"
  shows "top_n (nat ntop) (pair ` set cs) (pair ` set (emitted srt psrt ntop cs))"
proof -
  let ?E = "emitted srt psrt ntop cs"
  have sub: "set ?E \<subseteq> set cs" using set_mset_mono[OF emitted_sub[OF s ps ntop, of cs]] by simp
  have c1: "card (pair ` set ?E) = length ?E"
    using card_image[OF inj_on_subset[OF inj_pair subset_UNIV], of "set ?E"]
      distinct_card[OF emitted_distinct[OF s ps ntop d]] by simp
  have c2: "card (pair ` set cs) = length cs"
    using card_image[OF inj_on_subset[OF inj_pair subset_UNIV], of "set cs"] distinct_card[OF d] by simp
  have best: "snd y \<le> snd x" if "x \<in> pair ` set ?E" "y \<in> pair ` set cs - pair ` set ?E" for x y
  proof -
    from that obtain a b where a: "a \<in> set ?E" "x = pair a" and b: "b \<in> set cs" "y = pair b" by blast
    from that b have "b \<notin> set ?E" by blast
    from emitted_best[OF s ps ntop a(1) b(1) this] show ?thesis
      using a b by (simp add: candidate_cmp_def pair_def not_less)
  qed
  show ?thesis
    unfolding top_n_def c1 c2 length_emitted[OF s ps ntop]
    using sub best by blast
qed

lemma topn_rows_step:
  "i < n_row \<Longrightarrow>
   topn_rows srt psrt Ap Aj Ax Bp Bj Bx ntop lower_bound i n_row st =
   topn_row srt psrt Ap Aj Ax Bp Bj Bx ntop lower_bound i st \<bind>
     topn_rows srt psrt Ap Aj Ax Bp Bj Bx ntop lower_bound (i + 1) n_row"
  by (rule trans[OF topn_rows.simps]) simp

lemma topn_rows_done:
  "\<not> i < n_row \<Longrightarrow> topn_rows srt psrt Ap Aj Ax Bp Bj Bx ntop lower_bound i n_row st = Some st"
  by (rule trans[OF topn_rows.simps]) simp

lemma plus_rows_step:
  "i < n_row \<Longrightarrow>
   plus_rows srt psrt Ap Aj Ax Bp Bj Bx ntop lower_bound i n_row st =
   plus_row srt psrt Ap Aj Ax Bp Bj Bx ntop lower_bound i st \<bind>
     plus_rows srt psrt Ap Aj Ax Bp Bj Bx ntop lower_bound (i + 1) n_row"
  by (rule trans[OF plus_rows.simps]) simp

lemma plus_rows_done:
  "\<not> i < n_row \<Longrightarrow> plus_rows srt psrt Ap Aj Ax Bp Bj Bx ntop lower_bound i n_row st = Some st"
  by (rule trans[OF plus_rows.simps]) simp

lemma topn_rows_split:
  "i \<le> m \<Longrightarrow> m \<le> n_row \<Longrightarrow>
   topn_rows srt psrt Ap Aj Ax Bp Bj Bx ntop lower_bound i n_row st =
   topn_rows srt psrt Ap Aj Ax Bp Bj Bx ntop lower_bound i m st \<bind>
     topn_rows srt psrt Ap Aj Ax Bp Bj Bx ntop lower_bound m n_row"
proof (induction srt psrt Ap Aj Ax Bp Bj Bx ntop lower_bound i m st rule: topn_rows.induct)
  case (1 srt psrt Ap Aj Ax Bp Bj Bx ntop lower_bound i m st)
  show ?case
  proof (cases "i < m")
    case False
    with "1.prems" have "i = m" by simp
    then show ?thesis
      by (simp add: topn_rows_done)
  next
    case True
    then have lt: "i < n_row" using "1.prems" by simp
    show ?thesis
    proof (cases "topn_row srt psrt Ap Aj Ax Bp Bj Bx ntop lower_bound i st")
      case None
      with True lt show ?thesis
        by (simp add: topn_rows_step)
    next
      case (Some st')
      from "1.IH"[OF True Some] True "1.prems" Some lt show ?thesis
        by (simp add: topn_rows_step)
    qed
  qed
qed

lemma plus_rows_split:
  "i \<le> m \<Longrightarrow> m \<le> n_row \<Longrightarrow>
   plus_rows srt psrt Ap Aj Ax Bp Bj Bx ntop lower_bound i n_row st =
   plus_rows srt psrt Ap Aj Ax Bp Bj Bx ntop lower_bound i m st \<bind>
     plus_rows srt psrt Ap Aj Ax Bp Bj Bx ntop lower_bound m n_row"
proof (induction srt psrt Ap Aj Ax Bp Bj Bx ntop lower_bound i m st rule: plus_rows.induct)
  case (1 srt psrt Ap Aj Ax Bp Bj Bx ntop lower_bound i m st)
  show ?case
  proof (cases "i < m")
    case False
    with "1.prems" have "i = m" by simp
    then show ?thesis
      by (simp add: plus_rows_done)
  next
    case True
    then have lt: "i < n_row" using "1.prems" by simp
    show ?thesis
    proof (cases "plus_row srt psrt Ap Aj Ax Bp Bj Bx ntop lower_bound i st")
      case None
      with True lt show ?thesis
        by (simp add: plus_rows_step)
    next
      case (Some st')
      from "1.IH"[OF True Some] True "1.prems" Some lt show ?thesis
        by (simp add: plus_rows_step)
    qed
  qed
qed

lemma topn_closed:
  fixes Ax Bx :: "'v::{zero,plus,times,ord} list"
  assumes v: "valid_input n_row n_inner n_col Ap Aj Ax Bp Bj Bx"
    and s: "std_sort srt" and ps: "std_partial_sort psrt" and ntop: "0 \<le> ntop"
    and room: "room n_row Ap Aj Ax Bp Bj Bx ntop lower_bound Cp Cj Cx"
    and R: "R = row_emitted srt psrt Ap Aj Ax Bp Bj Bx ntop lower_bound"
    and W: "W = row_width Ap Aj Ax Bp Bj Bx"
    and m: "0 \<le> m" "m \<le> n_row"
  shows "topn_init n_col Cp Cj Cx = Some (snd (after_rows R W (nat n_col) Cp Cj Cx 0))"
    and "topn_rows srt psrt Ap Aj Ax Bp Bj Bx ntop lower_bound 0 m (snd (after_rows R W (nat n_col) Cp Cj Cx 0)) =
      Some (snd (after_rows R W (nat n_col) Cp Cj Cx (nat m)))"
proof -
  note p = plus_closed[OF v s ps ntop room R W m]
  show "topn_init n_col Cp Cj Cx = Some (snd (after_rows R W (nat n_col) Cp Cj Cx 0))"
    using plus_init_topn_init[of n_col Cp Cj Cx] p(1) by simp
  have "after_rows R W (nat n_col) Cp Cj Cx 0 = (0, snd (after_rows R W (nat n_col) Cp Cj Cx 0))"
    by (simp add: after_rows_def)
  with plus_rows_topn_rows[of srt psrt Ap Aj Ax Bp Bj Bx ntop lower_bound 0 m 0
      "snd (after_rows R W (nat n_col) Cp Cj Cx 0)"] p(2)
  show "topn_rows srt psrt Ap Aj Ax Bp Bj Bx ntop lower_bound 0 m (snd (after_rows R W (nat n_col) Cp Cj Cx 0)) =
      Some (snd (after_rows R W (nat n_col) Cp Cj Cx (nat m)))"
    by simp
qed

lemma total_emitted_le: "total_emitted Ap Aj Ax Bp Bj Bx ntop lower_bound m \<le> m * nat ntop"
  by (induction m) (simp_all add: total_emitted_def)

lemma room_by_cap:
  assumes "nat n_row + 1 \<le> length Cp" "nat n_row * nat ntop \<le> length Cj" "nat n_row * nat ntop \<le> length Cx"
  shows "room n_row Ap Aj Ax Bp Bj Bx ntop lower_bound Cp Cj Cx"
  using assms total_emitted_le[of Ap Aj Ax Bp Bj Bx ntop lower_bound "nat n_row"]
  by (simp add: room_def)

lemma total_unreached: "k \<notin> fst ` set kps \<Longrightarrow> total kps k = 0"
proof -
  assume "k \<notin> fst ` set kps"
  then have "filter (\<lambda>kp. fst kp = k) kps = []"
    by (force simp: filter_empty_conv)
  then show ?thesis by (simp add: total_def)
qed

lemma over_bound_reached:
  fixes Ax Bx :: "'v::linordered_idom list"
  assumes v: "valid_input n_row n_inner n_col Ap Aj Ax Bp Bj Bx" and i: "0 \<le> i" "i < n_row"
    and lb: "0 \<le> lower_bound"
  shows "{kv \<in> set (over_bound n_inner n_col Ap Aj Ax Bp Bj Bx lower_bound i).
           fst kv \<in> set (reach Ap Aj Bp Bj i)} =
         set (over_bound n_inner n_col Ap Aj Ax Bp Bj Bx lower_bound i)"
proof -
  let ?kps = "row_products Ap Aj Ax Bp Bj Bx i"
  from v have A: "csr n_row n_inner Ap Aj Ax" by (simp add: valid_input_def)
  have r: "fst ` set ?kps = set (reach Ap Aj Bp Bj i)"
    using arg_cong[OF map_fst_row_products, of set Ap Aj Ax Bp Bj Bx i] by simp
  have "fst kv \<in> set (reach Ap Aj Bp Bj i)"
    if "kv \<in> set (over_bound n_inner n_col Ap Aj Ax Bp Bj Bx lower_bound i)" for kv
  proof (rule ccontr)
    assume "fst kv \<notin> set (reach Ap Aj Bp Bj i)"
    then have "total ?kps (fst kv) = 0" unfolding r[symmetric] by (rule total_unreached)
    then have "dot n_inner Ap Aj Ax Bp Bj Bx i (fst kv) = 0"
      unfolding total_dot[OF A i] .
    moreover from that have "snd kv = dot n_inner Ap Aj Ax Bp Bj Bx i (fst kv)" "snd kv > lower_bound"
      by (auto simp: over_bound_def)
    ultimately show False using lb by simp
  qed
  then show ?thesis by blast
qed

lemma set_reached_over_bound:
  "set (reached_over_bound Ap Aj Ax Bp Bj Bx lower_bound i) =
   pair ` set (row_candidates lower_bound (row_products Ap Aj Ax Bp Bj Bx i))"
proof -
  have r: "fst ` set (row_products Ap Aj Ax Bp Bj Bx i) = set (reach Ap Aj Bp Bj i)"
    using arg_cong[OF map_fst_row_products, of set Ap Aj Ax Bp Bj Bx i] by simp
  show ?thesis
    unfolding pair_row_candidates r reached_over_bound_def by auto
qed

text \<open>
  In exact arithmetic the sum that the kernel accumulates is the element of the product:
  the reached columns above the bound are the candidates of the specification that a
  stored entry reaches, and for \<open>lower_bound \<ge> 0\<close> they are all of them.
\<close>

lemma reached_over_bound_exact:
  fixes Ax Bx :: "'v::linordered_idom list"
  assumes v: "valid_input n_row n_inner n_col Ap Aj Ax Bp Bj Bx" and i: "0 \<le> i" "i < n_row"
  shows "set (reached_over_bound Ap Aj Ax Bp Bj Bx lower_bound i) =
      {kv \<in> set (over_bound n_inner n_col Ap Aj Ax Bp Bj Bx lower_bound i).
         fst kv \<in> set (reach Ap Aj Bp Bj i)}"
    and "0 \<le> lower_bound \<Longrightarrow>
      set (reached_over_bound Ap Aj Ax Bp Bj Bx lower_bound i) =
      set (over_bound n_inner n_col Ap Aj Ax Bp Bj Bx lower_bound i)"
proof -
  show e: "set (reached_over_bound Ap Aj Ax Bp Bj Bx lower_bound i) =
      {kv \<in> set (over_bound n_inner n_col Ap Aj Ax Bp Bj Bx lower_bound i).
         fst kv \<in> set (reach Ap Aj Bp Bj i)}"
    unfolding set_reached_over_bound by (rule row_candidates_over_bound[OF v i])
  show "set (reached_over_bound Ap Aj Ax Bp Bj Bx lower_bound i) =
      set (over_bound n_inner n_col Ap Aj Ax Bp Bj Bx lower_bound i)" if "0 \<le> lower_bound"
    unfolding e by (rule over_bound_reached[OF v i that])
qed

section \<open>The claims\<close>

text \<open>
  The theorems below take a valid input (\<open>valid_input\<close>), sorting routines that meet the
  contracts of the standard library (\<open>std_sort\<close>, \<open>std_partial_sort\<close>), \<open>ntop \<ge> 0\<close> and
  output buffers with room for what is written (\<open>room\<close>). With a negative \<open>ntop\<close> the call
  of \<^verbatim>\<open>std::partial_sort\<close> is undefined, and without room the write loop leaves the
  buffers.
\<close>

text \<open>
  The scenario of the specification, on which the kernel is run with the insertion sort:
  \<open>A = [[1, 2], [0, 3]]\<close>, \<open>B\<close> the identity, \<open>ntop = 2\<close>, \<open>lower_bound = 0\<close>, and output
  buffers of three entries each.
\<close>

lemma scenario_valid: "valid_input 2 2 2 [0, 2, 3] [0, 1, 1] [1, 2, 3 :: int] [0, 1, 2] [0, 1] [1, 1]"
  by code_simp

lemma scenario_room:
  "room 2 [0, 2, 3] [0, 1, 1] [1, 2, 3 :: int] [0, 1, 2] [0, 1] [1, 1] 2 0 [9, 9, 9] [9, 9, 9] [9, 9, 9]"
  by code_simp

lemma scenario_topn:
  "sparse_dot_topn_source sort_desc partial_sort_desc 2 2 [0, 2, 3] [0, 1, 1] [1, 2, 3 :: int]
     [0, 1, 2] [0, 1] [1, 1] 2 0 [9, 9, 9] [9, 9, 9] [9, 9, 9] = Some ([0, 2, 3], [1, 0, 1], [2, 1, 3])"
  by code_simp

lemma scenario_plus:
  "sparse_dot_plus_minmax_topn_source sort_desc partial_sort_desc 2 2 [0, 2, 3] [0, 1, 1] [1, 2, 3 :: int]
     [0, 1, 2] [0, 1] [1, 1] 2 0 [9, 9, 9] [9, 9, 9] [9, 9, 9] = Some ([0, 2, 3], [1, 0, 1], [2, 1, 3], 2)"
  by code_simp

text \<open>
  C1, as the specification states it, takes the candidates of row \<open>i\<close> among all columns
  \<open>k\<close> of the product with \<open>\<Sum>j. A[i,j] * B[j,k] > lower_bound\<close>. With a negative
  \<open>lower_bound\<close> that set holds every column no stored entry reaches, with the value 0, and
  the kernel never visits those: for \<open>A = [[1]]\<close>, \<open>B = [[1, 0]]\<close> (the 0 not stored),
  \<open>ntop = 2\<close> and \<open>lower_bound = -1\<close> the stated set is \<open>{(0, 1), (1, 0)}\<close> and the output row
  is \<open>{(0, 1)}\<close>.
\<close>

theorem untouched_column_above_negative_bound_counterexample:
  "valid_input 1 1 2 [0, 1] [0] [1 :: int] [0, 1] [0] [1] \<and>
   room 1 [0, 1] [0] [1 :: int] [0, 1] [0] [1] 2 (- 1) [9, 9] [9, 9] [9, 9] \<and>
   sparse_dot_topn_source sort_desc partial_sort_desc 1 2 [0, 1] [0] [1 :: int] [0, 1] [0] [1]
     2 (- 1) [9, 9] [9, 9] [9, 9] = Some ([0, 1], [0, 9], [1, 9]) \<and>
   \<not> top_n (nat 2) (set (over_bound 1 2 [0, 1] [0] [1 :: int] [0, 1] [0] [1] (- 1) 0))
       (set (out_row [0, 1] [0, 9] [1, 9 :: int] 0))"
proof -
  have v: "valid_input 1 1 2 [0, 1] [0] [1 :: int] [0, 1] [0] [1]" by code_simp
  have r: "room 1 [0, 1] [0] [1 :: int] [0, 1] [0] [1] 2 (- 1) [9, 9] [9, 9] [9, 9]" by code_simp
  have t: "sparse_dot_topn_source sort_desc partial_sort_desc 1 2 [0, 1] [0] [1 :: int] [0, 1] [0] [1]
     2 (- 1) [9, 9] [9, 9] [9, 9] = Some ([0, 1], [0, 9], [1, 9])" by code_simp
  have o: "over_bound 1 2 [0, 1] [0] [1 :: int] [0, 1] [0] [1] (- 1) 0 = [(0, 1), (1, 0)]" by code_simp
  have w: "out_row [0, 1] [0, 9] [1, 9 :: int] 0 = [(0, 1)]" by code_simp
  have "\<not> top_n (nat 2) (set [(0, 1), (1, 0 :: int)]) (set [(0, 1 :: int)])"
    by (simp add: top_n_def)
  with v r t show ?thesis unfolding o w by simp
qed

text \<open>
  C1, amended: on a valid input with \<open>ntop \<ge> 0\<close> and room in the output buffers,
  \<open>sparse_dot_topn_source\<close> returns, and for every row \<open>i\<close> the set of (column, value) pairs
  it writes between \<open>Cp[i]\<close> and \<open>Cp[i+1]\<close> is a top-\<open>ntop\<close> selection of the set of
  \<open>(k, s)\<close> over the columns \<open>k\<close> that a stored entry \<open>(i, j)\<close> of \<open>A\<close> and a stored entry
  \<open>(j, k)\<close> of \<open>B\<close> reach and whose sum \<open>s\<close> is strictly greater than \<open>lower_bound\<close>: a subset
  of it, of \<open>min ntop\<close> (its size) elements, none smaller in value than an element left out.
  The sum \<open>s\<close> of column \<open>k\<close> is \<open>\<Sum>j. A[i,j] * B[j,k]\<close> as the kernel forms it: the products
  \<open>Ax[jj] * Bx[kk]\<close> of the stored entries, added to \<open>0\<close> one by one in the order of the
  loops, with the \<open>+\<close> and \<open>*\<close> of the value type. No law of arithmetic is assumed, so the
  statement holds of the rounded sums of \<^verbatim>\<open>double\<close> as well.
\<close>

theorem output_row_is_top_n_of_reached_columns:
  fixes Ax Bx :: "'v::{zero,plus,times,linorder} list"
  assumes "valid_input n_row n_inner n_col Ap Aj Ax Bp Bj Bx"
    and "std_sort srt" and "std_partial_sort psrt" and "0 \<le> ntop"
    and "room n_row Ap Aj Ax Bp Bj Bx ntop lower_bound Cp Cj Cx"
    and "0 \<le> i" and "i < n_row"
  shows "\<exists>Cp' Cj' Cx'.
    sparse_dot_topn_source srt psrt n_row n_col Ap Aj Ax Bp Bj Bx ntop lower_bound Cp Cj Cx =
      Some (Cp', Cj', Cx') \<and>
    top_n (nat ntop) (set (reached_over_bound Ap Aj Ax Bp Bj Bx lower_bound i))
      (set (out_row Cp' Cj' Cx' i))"
proof -
  define R where "R = row_emitted srt psrt Ap Aj Ax Bp Bj Bx ntop lower_bound"
  define Cp' where "Cp' = blit Cp 0 (offsets R (nat n_row))"
  define Cj' where "Cj' = blit Cj 0 (map index (upto_rows R (nat n_row)))"
  define Cx' where "Cx' = blit Cx 0 (map val (upto_rows R (nat n_row)))"
  let ?cs = "row_candidates lower_bound (row_products Ap Aj Ax Bp Bj Bx i)"
  note o = out_row_result[OF assms(2-5) R_def assms(6,7) Cp'_def Cj'_def Cx'_def]
  have "top_n (nat ntop) (pair ` set ?cs) (pair ` set (emitted srt psrt ntop ?cs))"
    by (rule top_n_emitted[OF assms(2-4) distinct_row_candidates])
  then have "top_n (nat ntop) (set (reached_over_bound Ap Aj Ax Bp Bj Bx lower_bound i))
      (set (out_row Cp' Cj' Cx' i))"
    unfolding o(1) set_reached_over_bound
    by (simp add: R_def row_emitted_def)
  with topn_result[OF assms(1-5) R_def]
  show ?thesis unfolding Cp'_def Cj'_def Cx'_def by blast
qed

theorem output_row_is_top_n_of_reached_columns_witness:
  "valid_input 2 2 2 [0, 2, 3] [0, 1, 1] [1, 2, 3 :: int] [0, 1, 2] [0, 1] [1, 1] \<and>
   room 2 [0, 2, 3] [0, 1, 1] [1, 2, 3 :: int] [0, 1, 2] [0, 1] [1, 1] 1 0 [9, 9, 9] [9, 9, 9] [9, 9, 9] \<and>
   (\<exists>Cp' Cj' Cx'.
      sparse_dot_topn_source sort_desc partial_sort_desc 2 2 [0, 2, 3] [0, 1, 1] [1, 2, 3 :: int]
        [0, 1, 2] [0, 1] [1, 1] 1 0 [9, 9, 9] [9, 9, 9] [9, 9, 9] = Some (Cp', Cj', Cx') \<and>
      top_n (nat 1)
        (set (reached_over_bound [0, 2, 3] [0, 1, 1] [1, 2, 3 :: int] [0, 1, 2] [0, 1] [1, 1] 0 0))
        (set (out_row Cp' Cj' Cx' 0)) \<and>
      out_row Cp' Cj' Cx' 0 = [(1, 2)]) \<and>
   reached_over_bound [0, 2, 3] [0, 1, 1] [1, 2, 3 :: int] [0, 1, 2] [0, 1] [1, 1] 0 0 = [(0, 1), (1, 2)]"
proof -
  have r: "room 2 [0, 2, 3] [0, 1, 1] [1, 2, 3 :: int] [0, 1, 2] [0, 1] [1, 1] 1 0 [9, 9, 9] [9, 9, 9] [9, 9, 9]"
    by code_simp
  have t: "sparse_dot_topn_source sort_desc partial_sort_desc 2 2 [0, 2, 3] [0, 1, 1] [1, 2, 3 :: int]
        [0, 1, 2] [0, 1] [1, 1] 1 0 [9, 9, 9] [9, 9, 9] [9, 9, 9] = Some ([0, 1, 2], [1, 1, 9], [2, 3, 9])"
    by code_simp
  have w: "out_row [0, 1, 2] [1, 1, 9] [2, 3, 9 :: int] 0 = [(1, 2)]" by code_simp
  have o: "reached_over_bound [0, 2, 3] [0, 1, 1] [1, 2, 3 :: int] [0, 1, 2] [0, 1] [1, 1] 0 0 = [(0, 1), (1, 2)]"
    by code_simp
  from output_row_is_top_n_of_reached_columns[OF scenario_valid std_sort_sort_desc
      std_partial_sort_partial_sort_desc _ r, where i = 0]
  have "\<exists>Cp' Cj' Cx'.
      sparse_dot_topn_source sort_desc partial_sort_desc 2 2 [0, 2, 3] [0, 1, 1] [1, 2, 3 :: int]
        [0, 1, 2] [0, 1] [1, 1] 1 0 [9, 9, 9] [9, 9, 9] [9, 9, 9] = Some (Cp', Cj', Cx') \<and>
      top_n (nat 1)
        (set (reached_over_bound [0, 2, 3] [0, 1, 1] [1, 2, 3 :: int] [0, 1, 2] [0, 1] [1, 1] 0 0))
        (set (out_row Cp' Cj' Cx' 0))"
    by simp
  then have c: "\<exists>Cp' Cj' Cx'.
      sparse_dot_topn_source sort_desc partial_sort_desc 2 2 [0, 2, 3] [0, 1, 1] [1, 2, 3 :: int]
        [0, 1, 2] [0, 1] [1, 1] 1 0 [9, 9, 9] [9, 9, 9] [9, 9, 9] = Some (Cp', Cj', Cx') \<and>
      top_n (nat 1)
        (set (reached_over_bound [0, 2, 3] [0, 1, 1] [1, 2, 3 :: int] [0, 1, 2] [0, 1] [1, 1] 0 0))
        (set (out_row Cp' Cj' Cx' 0)) \<and>
      out_row Cp' Cj' Cx' 0 = [(1, 2)]"
    unfolding t using w by simp
  show ?thesis by (intro conjI scenario_valid r c o)
qed

text \<open>
  In exact arithmetic (a linearly ordered commutative ring) the accumulated sum is the
  element \<open>\<Sum>j. A[i,j] * B[j,k]\<close> of the product, whatever the order of the summation. There
  the output row is a top-\<open>ntop\<close> selection of the specification's candidates that a stored
  entry reaches, and for \<open>lower_bound \<ge> 0\<close> of all of the specification's candidates.
\<close>

lemma output_row_is_top_n_in_exact_arithmetic:
  fixes Ax Bx :: "'v::linordered_idom list"
  assumes "valid_input n_row n_inner n_col Ap Aj Ax Bp Bj Bx"
    and "std_sort srt" and "std_partial_sort psrt" and "0 \<le> ntop"
    and "room n_row Ap Aj Ax Bp Bj Bx ntop lower_bound Cp Cj Cx"
    and "0 \<le> i" and "i < n_row"
  shows "\<exists>Cp' Cj' Cx'.
    sparse_dot_topn_source srt psrt n_row n_col Ap Aj Ax Bp Bj Bx ntop lower_bound Cp Cj Cx =
      Some (Cp', Cj', Cx') \<and>
    top_n (nat ntop)
      {kv \<in> set (over_bound n_inner n_col Ap Aj Ax Bp Bj Bx lower_bound i).
         fst kv \<in> set (reach Ap Aj Bp Bj i)}
      (set (out_row Cp' Cj' Cx' i)) \<and>
    (0 \<le> lower_bound \<longrightarrow>
       top_n (nat ntop) (set (over_bound n_inner n_col Ap Aj Ax Bp Bj Bx lower_bound i))
         (set (out_row Cp' Cj' Cx' i)))"
proof -
  define R where "R = row_emitted srt psrt Ap Aj Ax Bp Bj Bx ntop lower_bound"
  define Cp' where "Cp' = blit Cp 0 (offsets R (nat n_row))"
  define Cj' where "Cj' = blit Cj 0 (map index (upto_rows R (nat n_row)))"
  define Cx' where "Cx' = blit Cx 0 (map val (upto_rows R (nat n_row)))"
  let ?cs = "row_candidates lower_bound (row_products Ap Aj Ax Bp Bj Bx i)"
  note o = out_row_result[OF assms(2-5) R_def assms(6,7) Cp'_def Cj'_def Cx'_def]
  have "top_n (nat ntop) (pair ` set ?cs) (pair ` set (emitted srt psrt ntop ?cs))"
    by (rule top_n_emitted[OF assms(2-4) distinct_row_candidates])
  then have t: "top_n (nat ntop) (set (reached_over_bound Ap Aj Ax Bp Bj Bx lower_bound i))
      (set (out_row Cp' Cj' Cx' i))"
    unfolding o(1) set_reached_over_bound
    by (simp add: R_def row_emitted_def)
  note e = reached_over_bound_exact[OF assms(1,6,7), of lower_bound]
  have t1: "top_n (nat ntop)
      {kv \<in> set (over_bound n_inner n_col Ap Aj Ax Bp Bj Bx lower_bound i).
         fst kv \<in> set (reach Ap Aj Bp Bj i)}
      (set (out_row Cp' Cj' Cx' i))"
    using t unfolding e(1) .
  have "top_n (nat ntop) (set (over_bound n_inner n_col Ap Aj Ax Bp Bj Bx lower_bound i))
      (set (out_row Cp' Cj' Cx' i))" if "0 \<le> lower_bound"
    using t unfolding e(2)[OF that] .
  with t1 topn_result[OF assms(1-5) R_def]
  show ?thesis unfolding Cp'_def Cj'_def Cx'_def by blast
qed

text \<open>
  C2, as the specification states it, makes \<open>minmax_ntop\<close> the largest number, over the
  rows, of columns whose sum is above \<open>lower_bound\<close>. The kernel takes the maximum at line
  210, before the loop that compares with \<open>lower_bound\<close>: for \<open>A = [[1]]\<close>, \<open>B = [[1]]\<close> and
  \<open>lower_bound = 5\<close> no column is above the bound and \<open>minmax_ntop\<close> is 1.
\<close>

theorem minmax_counts_columns_below_bound_counterexample:
  "valid_input 1 1 1 [0, 1] [0] [1 :: int] [0, 1] [0] [1] \<and>
   room 1 [0, 1] [0] [1 :: int] [0, 1] [0] [1] 1 5 [9, 9] [9] [9] \<and>
   sparse_dot_plus_minmax_topn_source sort_desc partial_sort_desc 1 1 [0, 1] [0] [1 :: int] [0, 1] [0] [1]
     1 5 [9, 9] [9] [9] = Some ([0, 0], [9], [9], 1) \<and>
   Max (insert 0 ((\<lambda>i. int (length (over_bound 1 1 [0, 1] [0] [1 :: int] [0, 1] [0] [1] 5 i))) ` {0..<1})) = 0"
proof -
  have v: "valid_input 1 1 1 [0, 1] [0] [1 :: int] [0, 1] [0] [1]" by code_simp
  have r: "room 1 [0, 1] [0] [1 :: int] [0, 1] [0] [1] 1 5 [9, 9] [9] [9]" by code_simp
  have t: "sparse_dot_plus_minmax_topn_source sort_desc partial_sort_desc 1 1 [0, 1] [0] [1 :: int] [0, 1] [0] [1]
     1 5 [9, 9] [9] [9] = Some ([0, 0], [9], [9], 1)" by code_simp
  have o: "over_bound 1 1 [0, 1] [0] [1 :: int] [0, 1] [0] [1] 5 0 = []" by code_simp
  have "{0..<1 :: int} = {0}" by auto
  with v r t o show ?thesis by simp
qed

text \<open>
  C2, amended: on a valid input with room in the output buffers,
  \<open>sparse_dot_plus_minmax_topn_source\<close> returns, and the \<open>minmax_ntop\<close> it stores is the
  maximum, over the rows \<open>i\<close>, of the number of distinct columns \<open>k\<close> that a stored entry
  \<open>(i, j)\<close> of \<open>A\<close> and a stored entry \<open>(j, k)\<close> of \<open>B\<close> reach, whatever the values and
  \<open>lower_bound\<close> (0 when there is no row).
\<close>

theorem minmax_ntop_is_widest_reach:
  fixes Ax Bx :: "'v::{zero,plus,times,ord} list"
  assumes "valid_input n_row n_inner n_col Ap Aj Ax Bp Bj Bx"
    and "std_sort srt" and "std_partial_sort psrt" and "0 \<le> ntop"
    and "room n_row Ap Aj Ax Bp Bj Bx ntop lower_bound Cp Cj Cx"
  shows "\<exists>Cp' Cj' Cx'.
    sparse_dot_plus_minmax_topn_source srt psrt n_row n_col Ap Aj Ax Bp Bj Bx ntop lower_bound Cp Cj Cx =
      Some (Cp', Cj', Cx',
        Max (insert 0 ((\<lambda>i. int (card (set (reach Ap Aj Bp Bj i)))) ` {0..<n_row})))"
proof -
  from assms(1) have n: "0 \<le> n_row" by (simp add: valid_input_def csr_def)
  have "widest (row_width Ap Aj Ax Bp Bj Bx) (nat n_row) =
      Max (insert 0 ((\<lambda>i. int (card (set (reach Ap Aj Bp Bj i)))) ` {0..<n_row}))"
    unfolding widest_Max int_image_upt[OF n] by (simp add: row_width_reach[abs_def])
  with plus_result[OF assms(1-5) refl refl] show ?thesis by simp
qed

theorem minmax_ntop_is_widest_reach_witness:
  "valid_input 2 2 2 [0, 2, 3] [0, 1, 1] [1, 2, 3 :: int] [0, 1, 2] [0, 1] [1, 1] \<and>
   room 2 [0, 2, 3] [0, 1, 1] [1, 2, 3 :: int] [0, 1, 2] [0, 1] [1, 1] 2 0 [9, 9, 9] [9, 9, 9] [9, 9, 9] \<and>
   (\<exists>Cp' Cj' Cx'.
      sparse_dot_plus_minmax_topn_source sort_desc partial_sort_desc 2 2 [0, 2, 3] [0, 1, 1] [1, 2, 3 :: int]
        [0, 1, 2] [0, 1] [1, 1] 2 0 [9, 9, 9] [9, 9, 9] [9, 9, 9] =
      Some (Cp', Cj', Cx',
        Max (insert 0 ((\<lambda>i. int (card (set (reach [0, 2, 3] [0, 1, 1] [0, 1, 2] [0, 1] i)))) ` {0..<2})))) \<and>
   Max (insert 0 ((\<lambda>i. int (card (set (reach [0, 2, 3] [0, 1, 1] [0, 1, 2] [0, 1] i)))) ` {0..<2})) = 2"
proof -
  have e: "sparse_dot_plus_minmax_topn_source sort_desc partial_sort_desc 2 2 [0, 2, 3] [0, 1, 1] [1, 2, 3 :: int]
        [0, 1, 2] [0, 1] [1, 1] 2 0 [9, 9, 9] [9, 9, 9] [9, 9, 9] =
      Some ([0, 2, 3], [1, 0, 1], [2, 1, 3], 2)"
    by (rule scenario_plus)
  from minmax_ntop_is_widest_reach[OF scenario_valid std_sort_sort_desc
      std_partial_sort_partial_sort_desc _ scenario_room]
  show ?thesis
    using scenario_valid scenario_room unfolding e by simp
qed

text \<open>
  C3: the documentation of \<open>sparse_dot_only_minmax_topn_source\<close> promises the maximum
  number of columns set per row, and its sibling \<open>sparse_dot_plus_minmax_topn_source\<close>
  clears its marks after every row. Here \<open>unmarked\<close> is never set back to \<open>true\<close>, so a
  column counts only in the first row that reaches it. For the patterns of \<open>A = [[1, 0],
  [0, 1]]\<close> and \<open>B = [[1, 0], [1, 1]]\<close> row 1 reaches the columns 0 and 1, and the function
  stores 1.
\<close>

theorem only_minmax_counts_a_column_once_for_all_rows:
  "csr 2 2 [0, 1, 2] [0, 1] [1, 1 :: int] \<and> csr 2 2 [0, 1, 3] [0, 0, 1] [1, 1, 1 :: int] \<and>
   sparse_dot_only_minmax_topn_source 2 2 [0, 1, 2] [0, 1] [0, 1, 3] [0, 0, 1] = Some 1 \<and>
   reach [0, 1, 2] [0, 1] [0, 1, 3] [0, 0, 1] 0 = [0] \<and>
   reach [0, 1, 2] [0, 1] [0, 1, 3] [0, 0, 1] 1 = [0, 1] \<and>
   Max (insert 0 ((\<lambda>i. int (card (set (reach [0, 1, 2] [0, 1] [0, 1, 3] [0, 0, 1] i)))) ` {0..<2})) = 2"
proof -
  have a: "csr 2 2 [0, 1, 2] [0, 1] [1, 1 :: int]" by code_simp
  have b: "csr 2 2 [0, 1, 3] [0, 0, 1] [1, 1, 1 :: int]" by code_simp
  have t: "sparse_dot_only_minmax_topn_source 2 2 [0, 1, 2] [0, 1] [0, 1, 3] [0, 0, 1] = Some 1"
    by code_simp
  have r0: "reach [0, 1, 2] [0, 1] [0, 1, 3] [0, 0, 1] 0 = [0]" by code_simp
  have r1: "reach [0, 1, 2] [0, 1] [0, 1, 3] [0, 0, 1] 1 = [0, 1]" by code_simp
  have "{0..<2 :: int} = {0, 1}" by auto
  with a b t r0 r1 show ?thesis by simp
qed

text \<open>
  C4: \<open>sparse_dot_plus_minmax_topn_source\<close> writes exactly the output triple \<open>(Cp, Cj, Cx)\<close>
  that \<open>sparse_dot_topn_source\<close> writes for the same arguments, and stores \<open>minmax_ntop\<close>
  besides. The two results agree on every input, also where the behaviour is undefined for
  both; on a valid input with room in the output buffers both calls return.
\<close>

theorem plus_minmax_writes_the_output_of_topn:
  fixes Ax Bx :: "'v::{zero,plus,times,ord} list"
  shows "map_option (\<lambda>(Cp, Cj, Cx, minmax_ntop). (Cp, Cj, Cx))
       (sparse_dot_plus_minmax_topn_source srt psrt n_row n_col Ap Aj Ax Bp Bj Bx ntop lower_bound Cp Cj Cx) =
     sparse_dot_topn_source srt psrt n_row n_col Ap Aj Ax Bp Bj Bx ntop lower_bound Cp Cj Cx \<and>
     (valid_input n_row n_inner n_col Ap Aj Ax Bp Bj Bx \<and> std_sort srt \<and> std_partial_sort psrt \<and>
      0 \<le> ntop \<and> room n_row Ap Aj Ax Bp Bj Bx ntop lower_bound Cp Cj Cx \<longrightarrow>
      (\<exists>Cp' Cj' Cx' minmax_ntop.
         sparse_dot_plus_minmax_topn_source srt psrt n_row n_col Ap Aj Ax Bp Bj Bx ntop lower_bound Cp Cj Cx =
           Some (Cp', Cj', Cx', minmax_ntop) \<and>
         sparse_dot_topn_source srt psrt n_row n_col Ap Aj Ax Bp Bj Bx ntop lower_bound Cp Cj Cx =
           Some (Cp', Cj', Cx')))"
proof (intro conjI impI)
  show "map_option (\<lambda>(Cp, Cj, Cx, minmax_ntop). (Cp, Cj, Cx))
       (sparse_dot_plus_minmax_topn_source srt psrt n_row n_col Ap Aj Ax Bp Bj Bx ntop lower_bound Cp Cj Cx) =
     sparse_dot_topn_source srt psrt n_row n_col Ap Aj Ax Bp Bj Bx ntop lower_bound Cp Cj Cx"
    by (rule plus_topn)
next
  assume a: "valid_input n_row n_inner n_col Ap Aj Ax Bp Bj Bx \<and> std_sort srt \<and> std_partial_sort psrt \<and>
      0 \<le> ntop \<and> room n_row Ap Aj Ax Bp Bj Bx ntop lower_bound Cp Cj Cx"
  then have v: "valid_input n_row n_inner n_col Ap Aj Ax Bp Bj Bx" and s: "std_sort srt"
    and ps: "std_partial_sort psrt" and n: "0 \<le> ntop"
    and r: "room n_row Ap Aj Ax Bp Bj Bx ntop lower_bound Cp Cj Cx"
    by simp_all
  from plus_result[OF v s ps n r refl refl] topn_result[OF v s ps n r refl]
  show "\<exists>Cp' Cj' Cx' minmax_ntop.
         sparse_dot_plus_minmax_topn_source srt psrt n_row n_col Ap Aj Ax Bp Bj Bx ntop lower_bound Cp Cj Cx =
           Some (Cp', Cj', Cx', minmax_ntop) \<and>
         sparse_dot_topn_source srt psrt n_row n_col Ap Aj Ax Bp Bj Bx ntop lower_bound Cp Cj Cx =
           Some (Cp', Cj', Cx')"
    by blast
qed

theorem plus_minmax_writes_the_output_of_topn_witness:
  "valid_input 2 2 2 [0, 2, 3] [0, 1, 1] [1, 2, 3 :: int] [0, 1, 2] [0, 1] [1, 1] \<and>
   room 2 [0, 2, 3] [0, 1, 1] [1, 2, 3 :: int] [0, 1, 2] [0, 1] [1, 1] 2 0 [9, 9, 9] [9, 9, 9] [9, 9, 9] \<and>
   (\<exists>Cp' Cj' Cx' minmax_ntop.
      sparse_dot_plus_minmax_topn_source sort_desc partial_sort_desc 2 2 [0, 2, 3] [0, 1, 1] [1, 2, 3 :: int]
        [0, 1, 2] [0, 1] [1, 1] 2 0 [9, 9, 9] [9, 9, 9] [9, 9, 9] = Some (Cp', Cj', Cx', minmax_ntop) \<and>
      sparse_dot_topn_source sort_desc partial_sort_desc 2 2 [0, 2, 3] [0, 1, 1] [1, 2, 3 :: int]
        [0, 1, 2] [0, 1] [1, 1] 2 0 [9, 9, 9] [9, 9, 9] [9, 9, 9] = Some (Cp', Cj', Cx') \<and>
      Cp' = [0, 2, 3] \<and> Cj' = [1, 0, 1] \<and> Cx' = [2, 1, 3] \<and> minmax_ntop = 2)"
proof -
  have h: "valid_input 2 2 2 [0, 2, 3] [0, 1, 1] [1, 2, 3 :: int] [0, 1, 2] [0, 1] [1, 1] \<and>
      std_sort (sort_desc :: int candidate list \<Rightarrow> _) \<and> std_partial_sort (partial_sort_desc :: nat \<Rightarrow> int candidate list \<Rightarrow> _) \<and>
      (0 :: int) \<le> 2 \<and>
      room 2 [0, 2, 3] [0, 1, 1] [1, 2, 3 :: int] [0, 1, 2] [0, 1] [1, 1] 2 0 [9, 9, 9] [9, 9, 9] [9, 9, 9]"
    using scenario_valid scenario_room std_sort_sort_desc std_partial_sort_partial_sort_desc by simp
  from plus_minmax_writes_the_output_of_topn[THEN conjunct2, rule_format, OF h]
  show ?thesis
    using scenario_valid scenario_room scenario_topn scenario_plus by simp
qed

text \<open>
  C5: on a valid input with room in the output buffers, both multiplying entry points
  return, and in every output row \<open>i\<close> the values \<open>Cx[Cp[i]], ..., Cx[Cp[i+1] - 1]\<close> are
  non-increasing. Nothing is said about the order of equal values: the theorem holds for
  every sorting routine that meets the standard's contract.
\<close>

theorem output_rows_non_increasing:
  fixes Ax Bx :: "'v::{zero,plus,times,linorder} list"
  assumes "valid_input n_row n_inner n_col Ap Aj Ax Bp Bj Bx"
    and "std_sort srt" and "std_partial_sort psrt" and "0 \<le> ntop"
    and "room n_row Ap Aj Ax Bp Bj Bx ntop lower_bound Cp Cj Cx"
    and "0 \<le> i" and "i < n_row"
  shows "\<exists>Cp' Cj' Cx' minmax_ntop.
    sparse_dot_topn_source srt psrt n_row n_col Ap Aj Ax Bp Bj Bx ntop lower_bound Cp Cj Cx =
      Some (Cp', Cj', Cx') \<and>
    sparse_dot_plus_minmax_topn_source srt psrt n_row n_col Ap Aj Ax Bp Bj Bx ntop lower_bound Cp Cj Cx =
      Some (Cp', Cj', Cx', minmax_ntop) \<and>
    sorted_wrt (\<lambda>x y. x \<ge> y) (map (\<lambda>p. Cx' ! nat p) [Cp' ! nat i..Cp' ! nat (i + 1) - 1])"
proof -
  define R where "R = row_emitted srt psrt Ap Aj Ax Bp Bj Bx ntop lower_bound"
  define Cp' where "Cp' = blit Cp 0 (offsets R (nat n_row))"
  define Cj' where "Cj' = blit Cj 0 (map index (upto_rows R (nat n_row)))"
  define Cx' where "Cx' = blit Cx 0 (map val (upto_rows R (nat n_row)))"
  note o = out_row_result[OF assms(2-5) R_def assms(6,7) Cp'_def Cj'_def Cx'_def]
  note f = row_emitted_facts[OF assms(2-4) R_def, of i]
  have "map (\<lambda>p. Cx' ! nat p) [Cp' ! nat i..Cp' ! nat (i + 1) - 1] = map snd (out_row Cp' Cj' Cx' i)"
    by (simp add: out_row_def comp_def)
  also have "\<dots> = map val (R i)"
    unfolding o(1) by (simp add: pair_def comp_def)
  finally have "sorted_wrt (\<lambda>x y. x \<ge> y) (map (\<lambda>p. Cx' ! nat p) [Cp' ! nat i..Cp' ! nat (i + 1) - 1])"
    using ordered_vals[OF f(1)] by simp
  with topn_result[OF assms(1-5) R_def] plus_result[OF assms(1-5) R_def refl]
  show ?thesis unfolding Cp'_def Cj'_def Cx'_def by blast
qed

theorem output_rows_non_increasing_witness:
  "valid_input 2 2 2 [0, 2, 3] [0, 1, 1] [1, 2, 3 :: int] [0, 1, 2] [0, 1] [1, 1] \<and>
   room 2 [0, 2, 3] [0, 1, 1] [1, 2, 3 :: int] [0, 1, 2] [0, 1] [1, 1] 2 0 [9, 9, 9] [9, 9, 9] [9, 9, 9] \<and>
   (\<exists>Cp' Cj' Cx' minmax_ntop.
      sparse_dot_topn_source sort_desc partial_sort_desc 2 2 [0, 2, 3] [0, 1, 1] [1, 2, 3 :: int]
        [0, 1, 2] [0, 1] [1, 1] 2 0 [9, 9, 9] [9, 9, 9] [9, 9, 9] = Some (Cp', Cj', Cx') \<and>
      sparse_dot_plus_minmax_topn_source sort_desc partial_sort_desc 2 2 [0, 2, 3] [0, 1, 1] [1, 2, 3 :: int]
        [0, 1, 2] [0, 1] [1, 1] 2 0 [9, 9, 9] [9, 9, 9] [9, 9, 9] = Some (Cp', Cj', Cx', minmax_ntop) \<and>
      sorted_wrt (\<lambda>x y. x \<ge> y) (map (\<lambda>p. Cx' ! nat p) [Cp' ! nat 0..Cp' ! nat (0 + 1) - 1]) \<and>
      Cp' = [0, 2, 3] \<and> Cx' = [2, 1, 3])"
  using output_rows_non_increasing[OF scenario_valid std_sort_sort_desc
      std_partial_sort_partial_sort_desc _ scenario_room, where i = 0]
    scenario_valid scenario_room scenario_topn scenario_plus
  by simp

text \<open>
  C6: on a valid input with \<open>ntop \<ge> 0\<close> and room in the output buffers, both multiplying
  entry points return, and the row pointers they write satisfy \<open>Cp[0] = 0\<close>, are
  non-decreasing over their \<open>n_row + 1\<close> entries, and \<open>Cp[i+1] - Cp[i] \<le> ntop\<close> for
  every row \<open>i\<close>.
\<close>

theorem row_pointers_monotone_and_capped:
  fixes Ax Bx :: "'v::{zero,plus,times,ord} list"
  assumes "valid_input n_row n_inner n_col Ap Aj Ax Bp Bj Bx"
    and "std_sort srt" and "std_partial_sort psrt" and "0 \<le> ntop"
    and "room n_row Ap Aj Ax Bp Bj Bx ntop lower_bound Cp Cj Cx"
  shows "\<exists>Cp' Cj' Cx' minmax_ntop.
    sparse_dot_topn_source srt psrt n_row n_col Ap Aj Ax Bp Bj Bx ntop lower_bound Cp Cj Cx =
      Some (Cp', Cj', Cx') \<and>
    sparse_dot_plus_minmax_topn_source srt psrt n_row n_col Ap Aj Ax Bp Bj Bx ntop lower_bound Cp Cj Cx =
      Some (Cp', Cj', Cx', minmax_ntop) \<and>
    Cp' ! 0 = 0 \<and> sorted (take (nat n_row + 1) Cp') \<and>
    (\<forall>i. 0 \<le> i \<and> i < n_row \<longrightarrow> Cp' ! nat (i + 1) - Cp' ! nat i \<le> ntop)"
proof -
  define R where "R = row_emitted srt psrt Ap Aj Ax Bp Bj Bx ntop lower_bound"
  define Cp' where "Cp' = blit Cp 0 (offsets R (nat n_row))"
  define Cj' where "Cj' = blit Cj 0 (map index (upto_rows R (nat n_row)))"
  define Cx' where "Cx' = blit Cx 0 (map val (upto_rows R (nat n_row)))"
  have z: "Cp' ! 0 = 0"
    unfolding Cp'_def using nth_offsets[of 0 "nat n_row" R] by (simp add: nth_blit)
  have "take (nat n_row + 1) Cp' = offsets R (nat n_row)"
    unfolding Cp'_def using take_blit[of "offsets R (nat n_row)" Cp] by simp
  then have s: "sorted (take (nat n_row + 1) Cp')" by (simp add: sorted_offsets)
  have d: "\<forall>i. 0 \<le> i \<and> i < n_row \<longrightarrow> Cp' ! nat (i + 1) - Cp' ! nat i \<le> ntop"
  proof (intro allI impI)
    fix i assume i: "0 \<le> i \<and> i < n_row"
    then have i0: "0 \<le> i" and i1: "i < n_row" by simp_all
    from out_row_result(3)[OF assms(2-5) R_def i0 i1 Cp'_def Cj'_def Cx'_def]
      row_emitted_facts(3)[OF assms(2-4) R_def, of i]
    show "Cp' ! nat (i + 1) - Cp' ! nat i \<le> ntop" by simp
  qed
  from z s d topn_result[OF assms(1-5) R_def] plus_result[OF assms(1-5) R_def refl]
  show ?thesis unfolding Cp'_def Cj'_def Cx'_def by blast
qed

theorem row_pointers_monotone_and_capped_witness:
  "valid_input 2 2 2 [0, 2, 3] [0, 1, 1] [1, 2, 3 :: int] [0, 1, 2] [0, 1] [1, 1] \<and>
   room 2 [0, 2, 3] [0, 1, 1] [1, 2, 3 :: int] [0, 1, 2] [0, 1] [1, 1] 2 0 [9, 9, 9] [9, 9, 9] [9, 9, 9] \<and>
   (\<exists>Cp' Cj' Cx' minmax_ntop.
      sparse_dot_topn_source sort_desc partial_sort_desc 2 2 [0, 2, 3] [0, 1, 1] [1, 2, 3 :: int]
        [0, 1, 2] [0, 1] [1, 1] 2 0 [9, 9, 9] [9, 9, 9] [9, 9, 9] = Some (Cp', Cj', Cx') \<and>
      sparse_dot_plus_minmax_topn_source sort_desc partial_sort_desc 2 2 [0, 2, 3] [0, 1, 1] [1, 2, 3 :: int]
        [0, 1, 2] [0, 1] [1, 1] 2 0 [9, 9, 9] [9, 9, 9] [9, 9, 9] = Some (Cp', Cj', Cx', minmax_ntop) \<and>
      Cp' ! 0 = 0 \<and> sorted (take (nat 2 + 1) Cp') \<and>
      Cp' ! nat (0 + 1) - Cp' ! nat 0 \<le> 2 \<and> Cp' ! nat (1 + 1) - Cp' ! nat 1 \<le> 2 \<and> Cp' = [0, 2, 3])"
  using row_pointers_monotone_and_capped[OF scenario_valid std_sort_sort_desc
      std_partial_sort_partial_sort_desc _ scenario_room]
    scenario_valid scenario_room scenario_topn scenario_plus
  by simp

text \<open>
  C7: on a valid input with room in the output buffers, both multiplying entry points
  return, every value they write into \<open>Cx\<close> (the entries below the final \<open>Cp[n_row]\<close>) is
  strictly greater than \<open>lower_bound\<close>, and the rest of \<open>Cx\<close> is left as it was. So a sum
  equal to \<open>lower_bound\<close> is never written.
\<close>

theorem written_values_above_lower_bound:
  fixes Ax Bx :: "'v::{zero,plus,times,ord} list"
  assumes "valid_input n_row n_inner n_col Ap Aj Ax Bp Bj Bx"
    and "std_sort srt" and "std_partial_sort psrt" and "0 \<le> ntop"
    and "room n_row Ap Aj Ax Bp Bj Bx ntop lower_bound Cp Cj Cx"
  shows "\<exists>Cp' Cj' Cx' minmax_ntop.
    sparse_dot_topn_source srt psrt n_row n_col Ap Aj Ax Bp Bj Bx ntop lower_bound Cp Cj Cx =
      Some (Cp', Cj', Cx') \<and>
    sparse_dot_plus_minmax_topn_source srt psrt n_row n_col Ap Aj Ax Bp Bj Bx ntop lower_bound Cp Cj Cx =
      Some (Cp', Cj', Cx', minmax_ntop) \<and>
    (\<forall>p. 0 \<le> p \<and> p < Cp' ! nat n_row \<longrightarrow> Cx' ! nat p > lower_bound) \<and>
    drop (nat (Cp' ! nat n_row)) Cx' = drop (nat (Cp' ! nat n_row)) Cx"
proof -
  define R where "R = row_emitted srt psrt Ap Aj Ax Bp Bj Bx ntop lower_bound"
  define Cp' where "Cp' = blit Cp 0 (offsets R (nat n_row))"
  define Cj' where "Cj' = blit Cj 0 (map index (upto_rows R (nat n_row)))"
  define Cx' where "Cx' = blit Cx 0 (map val (upto_rows R (nat n_row)))"
  let ?E = "upto_rows R (nat n_row)"
  have n: "Cp' ! nat n_row = int (length ?E)"
    unfolding Cp'_def using nth_offsets[of "nat n_row" "nat n_row" R] by (simp add: nth_blit)
  have above: "val c > lower_bound" if "c \<in> set ?E" for c
  proof -
    from that obtain i where "c \<in> set (R (int i))" by (auto simp: set_upto_rows)
    with row_emitted_facts(2)[OF assms(2-4) R_def, of "int i"] show ?thesis
      by (auto simp: row_candidates_def)
  qed
  have a: "\<forall>p. 0 \<le> p \<and> p < Cp' ! nat n_row \<longrightarrow> Cx' ! nat p > lower_bound"
  proof (intro allI impI)
    fix p assume p: "0 \<le> p \<and> p < Cp' ! nat n_row"
    then have lt: "nat p < length ?E" using n by (simp add: nat_less_iff)
    then have "Cx' ! nat p = val (?E ! nat p)" unfolding Cx'_def by (simp add: nth_blit)
    with above[of "?E ! nat p"] lt show "Cx' ! nat p > lower_bound" by simp
  qed
  have d: "drop (nat (Cp' ! nat n_row)) Cx' = drop (nat (Cp' ! nat n_row)) Cx"
    unfolding n unfolding Cx'_def using drop_blit[of "map val ?E" Cx] by simp
  from a d topn_result[OF assms(1-5) R_def] plus_result[OF assms(1-5) R_def refl]
  show ?thesis unfolding Cp'_def Cj'_def Cx'_def by blast
qed

theorem written_values_above_lower_bound_witness:
  "valid_input 2 2 2 [0, 2, 3] [0, 1, 1] [1, 2, 3 :: int] [0, 1, 2] [0, 1] [1, 1] \<and>
   room 2 [0, 2, 3] [0, 1, 1] [1, 2, 3 :: int] [0, 1, 2] [0, 1] [1, 1] 2 0 [9, 9, 9] [9, 9, 9] [9, 9, 9] \<and>
   (\<exists>Cp' Cj' Cx' minmax_ntop.
      sparse_dot_topn_source sort_desc partial_sort_desc 2 2 [0, 2, 3] [0, 1, 1] [1, 2, 3 :: int]
        [0, 1, 2] [0, 1] [1, 1] 2 0 [9, 9, 9] [9, 9, 9] [9, 9, 9] = Some (Cp', Cj', Cx') \<and>
      sparse_dot_plus_minmax_topn_source sort_desc partial_sort_desc 2 2 [0, 2, 3] [0, 1, 1] [1, 2, 3 :: int]
        [0, 1, 2] [0, 1] [1, 1] 2 0 [9, 9, 9] [9, 9, 9] [9, 9, 9] = Some (Cp', Cj', Cx', minmax_ntop) \<and>
      Cx' ! nat 0 > 0 \<and> Cx' ! nat 1 > 0 \<and> Cx' ! nat 2 > 0 \<and> Cp' ! nat 2 = 3 \<and>
      drop (nat (Cp' ! nat 2)) Cx' = drop (nat (Cp' ! nat 2)) [9, 9, 9])"
  using written_values_above_lower_bound[OF scenario_valid std_sort_sort_desc
      std_partial_sort_partial_sort_desc _ scenario_room]
    scenario_valid scenario_room scenario_topn scenario_plus
  by simp

text \<open>
  C8: on a valid input with room in the output buffers, at the start of every row \<open>m\<close> and
  after the last row (\<open>0 \<le> m \<le> n_row\<close>) the row loops of \<open>sparse_dot_topn_source\<close> and of
  \<open>sparse_dot_plus_minmax_topn_source\<close> hold a \<open>next\<close> that is \<open>-1\<close> everywhere and a \<open>sums\<close>
  that is \<open>0\<close> everywhere (and an empty \<open>candidates\<close>). The state at the start of row \<open>m\<close> is
  the result of the loop run up to \<open>m\<close>: the whole loop is that run followed by the run from
  \<open>m\<close>. Within a row \<open>m < n_row\<close> the accumulation from the clean arrays links as many
  columns as the row reaches, and the walk of exactly that many steps restores the clean
  arrays.
\<close>

theorem scratch_arrays_clean_between_rows:
  fixes Ax Bx :: "'v::{zero,plus,times,ord} list"
  assumes "valid_input n_row n_inner n_col Ap Aj Ax Bp Bj Bx"
    and "std_sort srt" and "std_partial_sort psrt" and "0 \<le> ntop"
    and "room n_row Ap Aj Ax Bp Bj Bx ntop lower_bound Cp Cj Cx"
    and "0 \<le> m" and "m \<le> n_row"
  shows "\<exists>st pst minmax_ntop nnz Cp' Cj' Cx'.
    topn_init n_col Cp Cj Cx = Some st \<and>
    topn_rows srt psrt Ap Aj Ax Bp Bj Bx ntop lower_bound 0 m st =
      Some (replicate (nat n_col) (- 1), replicate (nat n_col) 0, [], nnz, Cp', Cj', Cx') \<and>
    topn_rows srt psrt Ap Aj Ax Bp Bj Bx ntop lower_bound 0 n_row st =
      topn_rows srt psrt Ap Aj Ax Bp Bj Bx ntop lower_bound m n_row
        (replicate (nat n_col) (- 1), replicate (nat n_col) 0, [], nnz, Cp', Cj', Cx') \<and>
    plus_init n_col Cp Cj Cx = Some pst \<and>
    plus_rows srt psrt Ap Aj Ax Bp Bj Bx ntop lower_bound 0 m pst =
      Some (minmax_ntop, replicate (nat n_col) (- 1), replicate (nat n_col) 0, [], nnz, Cp', Cj', Cx') \<and>
    plus_rows srt psrt Ap Aj Ax Bp Bj Bx ntop lower_bound 0 n_row pst =
      plus_rows srt psrt Ap Aj Ax Bp Bj Bx ntop lower_bound m n_row
        (minmax_ntop, replicate (nat n_col) (- 1), replicate (nat n_col) 0, [], nnz, Cp', Cj', Cx') \<and>
    (m < n_row \<longrightarrow>
      (\<exists>next' sums head length' candidates.
         accumulate Ap Aj Ax Bp Bj Bx m (replicate (nat n_col) (- 1)) (replicate (nat n_col) 0) =
           Some (next', sums, head, length') \<and>
         length' = int (card (set (reach Ap Aj Bp Bj m))) \<and>
         finalize_loop lower_bound 0 length' (next', sums, head, []) =
           Some (replicate (nat n_col) (- 1), replicate (nat n_col) 0, - 2, candidates)))"
proof -
  define R where "R = row_emitted srt psrt Ap Aj Ax Bp Bj Bx ntop lower_bound"
  define W where "W = row_width Ap Aj Ax Bp Bj Bx"
  let ?after = "after_rows R W (nat n_col) Cp Cj Cx"
  note p = plus_closed[OF assms(1-5) R_def W_def assms(6,7)]
  note t = topn_closed[OF assms(1-5) R_def W_def assms(6,7)]
  have ps: "plus_rows srt psrt Ap Aj Ax Bp Bj Bx ntop lower_bound 0 n_row (?after 0) =
      plus_rows srt psrt Ap Aj Ax Bp Bj Bx ntop lower_bound m n_row (?after (nat m))"
    using plus_rows_split[OF assms(6,7), of srt psrt Ap Aj Ax Bp Bj Bx ntop lower_bound "?after 0"] p(2)
    by simp
  have ts: "topn_rows srt psrt Ap Aj Ax Bp Bj Bx ntop lower_bound 0 n_row (snd (?after 0)) =
      topn_rows srt psrt Ap Aj Ax Bp Bj Bx ntop lower_bound m n_row (snd (?after (nat m)))"
    using topn_rows_split[OF assms(6,7), of srt psrt Ap Aj Ax Bp Bj Bx ntop lower_bound "snd (?after 0)"] t(2)
    by simp
  have row: "\<exists>next' sums head length' candidates.
         accumulate Ap Aj Ax Bp Bj Bx m (replicate (nat n_col) (- 1)) (replicate (nat n_col) 0) =
           Some (next', sums, head, length') \<and>
         length' = int (card (set (reach Ap Aj Bp Bj m))) \<and>
         finalize_loop lower_bound 0 length' (next', sums, head, []) =
           Some (replicate (nat n_col) (- 1), replicate (nat n_col) 0, - 2, candidates)"
    if lt: "m < n_row"
  proof -
    let ?kps = "row_products Ap Aj Ax Bp Bj Bx m"
    from assms(1) have A: "csr n_row n_inner Ap Aj Ax" and B: "csr n_inner (int (nat n_col)) Bp Bj Bx"
      by (simp_all add: valid_input_def)
    have keys: "\<forall>kp \<in> set ?kps. 0 \<le> fst kp \<and> fst kp < int (nat n_col)"
      by (rule row_products_keys[OF A B assms(6) lt])
    obtain next' sums head length' where
      f: "foldl touch (replicate (nat n_col) (- 1), replicate (nat n_col) 0, - 2, 0) ?kps =
        (next', sums, head, length')"
      by (cases "foldl touch (replicate (nat n_col) (- 1), replicate (nat n_col) (0 :: 'v), - 2, 0) ?kps") auto
    have acc: "accumulate Ap Aj Ax Bp Bj Bx m (replicate (nat n_col) (- 1)) (replicate (nat n_col) 0) =
        Some (next', sums, head, length')"
      using accumulate_foldl[OF A B assms(6) lt, of "replicate (nat n_col) (- 1)" "replicate (nat n_col) 0"] f
      by simp
    have "length' = int (card (set (reach Ap Aj Bp Bj m)))"
      using walk_clean(1)[OF keys f] row_width_reach[of Ap Aj Ax Bp Bj Bx m] by (simp add: row_width_def)
    with acc walk_clean(2)[OF keys f, of lower_bound] show ?thesis by blast
  qed
  from p t ps ts row show ?thesis
    unfolding after_rows_def by (simp del: replicate_eq_replicate)
qed

theorem scratch_arrays_clean_between_rows_witness:
  "valid_input 2 2 2 [0, 2, 3] [0, 1, 1] [1, 2, 3 :: int] [0, 1, 2] [0, 1] [1, 1] \<and>
   room 2 [0, 2, 3] [0, 1, 1] [1, 2, 3 :: int] [0, 1, 2] [0, 1] [1, 1] 2 0 [9, 9, 9] [9, 9, 9] [9, 9, 9] \<and>
   (\<exists>st pst minmax_ntop nnz Cp' Cj' Cx'.
    topn_init 2 [9, 9, 9] [9, 9, 9] [9, 9, 9 :: int] = Some st \<and>
    topn_rows sort_desc partial_sort_desc [0, 2, 3] [0, 1, 1] [1, 2, 3 :: int] [0, 1, 2] [0, 1] [1, 1] 2 0 0 1 st =
      Some (replicate (nat 2) (- 1), replicate (nat 2) 0, [], nnz, Cp', Cj', Cx') \<and>
    topn_rows sort_desc partial_sort_desc [0, 2, 3] [0, 1, 1] [1, 2, 3 :: int] [0, 1, 2] [0, 1] [1, 1] 2 0 0 2 st =
      topn_rows sort_desc partial_sort_desc [0, 2, 3] [0, 1, 1] [1, 2, 3 :: int] [0, 1, 2] [0, 1] [1, 1] 2 0 1 2
        (replicate (nat 2) (- 1), replicate (nat 2) 0, [], nnz, Cp', Cj', Cx') \<and>
    plus_init 2 [9, 9, 9] [9, 9, 9] [9, 9, 9 :: int] = Some pst \<and>
    plus_rows sort_desc partial_sort_desc [0, 2, 3] [0, 1, 1] [1, 2, 3 :: int] [0, 1, 2] [0, 1] [1, 1] 2 0 0 1 pst =
      Some (minmax_ntop, replicate (nat 2) (- 1), replicate (nat 2) 0, [], nnz, Cp', Cj', Cx') \<and>
    plus_rows sort_desc partial_sort_desc [0, 2, 3] [0, 1, 1] [1, 2, 3 :: int] [0, 1, 2] [0, 1] [1, 1] 2 0 0 2 pst =
      plus_rows sort_desc partial_sort_desc [0, 2, 3] [0, 1, 1] [1, 2, 3 :: int] [0, 1, 2] [0, 1] [1, 1] 2 0 1 2
        (minmax_ntop, replicate (nat 2) (- 1), replicate (nat 2) 0, [], nnz, Cp', Cj', Cx') \<and>
    (1 < (2 :: int) \<longrightarrow>
      (\<exists>next' sums head length' candidates.
         accumulate [0, 2, 3] [0, 1, 1] [1, 2, 3 :: int] [0, 1, 2] [0, 1] [1, 1] 1
             (replicate (nat 2) (- 1)) (replicate (nat 2) 0) =
           Some (next', sums, head, length') \<and>
         length' = int (card (set (reach [0, 2, 3] [0, 1, 1] [0, 1, 2] [0, 1] 1))) \<and>
         finalize_loop 0 0 length' (next', sums, head, []) =
           Some (replicate (nat 2) (- 1), replicate (nat 2) 0, - 2, candidates)))) \<and>
   topn_rows sort_desc partial_sort_desc [0, 2, 3] [0, 1, 1] [1, 2, 3 :: int] [0, 1, 2] [0, 1] [1, 1] 2 0 0 1
       ([- 1, - 1], [0, 0], [], 0, [0, 9, 9], [9, 9, 9], [9, 9, 9]) =
     Some ([- 1, - 1], [0, 0], [], 2, [0, 2, 9], [1, 0, 9], [2, 1, 9]) \<and>
   accumulate [0, 2, 3] [0, 1, 1] [1, 2, 3 :: int] [0, 1, 2] [0, 1] [1, 1] 1 [- 1, - 1] [0, 0] =
     Some ([- 1, - 2], [0, 3], 1, 1)"
proof -
  have c: "\<exists>st pst minmax_ntop nnz Cp' Cj' Cx'.
    topn_init 2 [9, 9, 9] [9, 9, 9] [9, 9, 9 :: int] = Some st \<and>
    topn_rows sort_desc partial_sort_desc [0, 2, 3] [0, 1, 1] [1, 2, 3 :: int] [0, 1, 2] [0, 1] [1, 1] 2 0 0 1 st =
      Some (replicate (nat 2) (- 1), replicate (nat 2) 0, [], nnz, Cp', Cj', Cx') \<and>
    topn_rows sort_desc partial_sort_desc [0, 2, 3] [0, 1, 1] [1, 2, 3 :: int] [0, 1, 2] [0, 1] [1, 1] 2 0 0 2 st =
      topn_rows sort_desc partial_sort_desc [0, 2, 3] [0, 1, 1] [1, 2, 3 :: int] [0, 1, 2] [0, 1] [1, 1] 2 0 1 2
        (replicate (nat 2) (- 1), replicate (nat 2) 0, [], nnz, Cp', Cj', Cx') \<and>
    plus_init 2 [9, 9, 9] [9, 9, 9] [9, 9, 9 :: int] = Some pst \<and>
    plus_rows sort_desc partial_sort_desc [0, 2, 3] [0, 1, 1] [1, 2, 3 :: int] [0, 1, 2] [0, 1] [1, 1] 2 0 0 1 pst =
      Some (minmax_ntop, replicate (nat 2) (- 1), replicate (nat 2) 0, [], nnz, Cp', Cj', Cx') \<and>
    plus_rows sort_desc partial_sort_desc [0, 2, 3] [0, 1, 1] [1, 2, 3 :: int] [0, 1, 2] [0, 1] [1, 1] 2 0 0 2 pst =
      plus_rows sort_desc partial_sort_desc [0, 2, 3] [0, 1, 1] [1, 2, 3 :: int] [0, 1, 2] [0, 1] [1, 1] 2 0 1 2
        (minmax_ntop, replicate (nat 2) (- 1), replicate (nat 2) 0, [], nnz, Cp', Cj', Cx') \<and>
    (1 < (2 :: int) \<longrightarrow>
      (\<exists>next' sums head length' candidates.
         accumulate [0, 2, 3] [0, 1, 1] [1, 2, 3 :: int] [0, 1, 2] [0, 1] [1, 1] 1
             (replicate (nat 2) (- 1)) (replicate (nat 2) 0) =
           Some (next', sums, head, length') \<and>
         length' = int (card (set (reach [0, 2, 3] [0, 1, 1] [0, 1, 2] [0, 1] 1))) \<and>
         finalize_loop 0 0 length' (next', sums, head, []) =
           Some (replicate (nat 2) (- 1), replicate (nat 2) 0, - 2, candidates)))"
    by (rule scratch_arrays_clean_between_rows[OF scenario_valid std_sort_sort_desc
      std_partial_sort_partial_sort_desc _ scenario_room]) simp_all
  have e1: "topn_rows sort_desc partial_sort_desc [0, 2, 3] [0, 1, 1] [1, 2, 3 :: int] [0, 1, 2] [0, 1] [1, 1] 2 0 0 1
       ([- 1, - 1], [0, 0], [], 0, [0, 9, 9], [9, 9, 9], [9, 9, 9]) =
     Some ([- 1, - 1], [0, 0], [], 2, [0, 2, 9], [1, 0, 9], [2, 1, 9])"
    by code_simp
  have e2: "accumulate [0, 2, 3] [0, 1, 1] [1, 2, 3 :: int] [0, 1, 2] [0, 1] [1, 1] 1 [- 1, - 1] [0, 0] =
     Some ([- 1, - 2], [0, 3], 1, 1)"
    by code_simp
  show ?thesis by (intro conjI scenario_valid scenario_room c e1 e2)
qed

text \<open>
  C9, as the specification states it, says that a column whose accumulated value is
  exactly zero is never emitted. The kernel compares with \<open>lower_bound\<close> only: for
  \<open>A = [[1, 1]]\<close>, \<open>B = [[1], [-1]]\<close>, \<open>ntop = 1\<close> and \<open>lower_bound = -1\<close> column 0 accumulates
  to 0 and is written to the output row with the value 0.
\<close>

theorem zero_sum_above_negative_bound_counterexample:
  "valid_input 1 2 1 [0, 2] [0, 1] [1, 1 :: int] [0, 1, 2] [0, 0] [1, - 1] \<and>
   room 1 [0, 2] [0, 1] [1, 1 :: int] [0, 1, 2] [0, 0] [1, - 1] 1 (- 1) [9, 9] [9] [9] \<and>
   accumulate [0, 2] [0, 1] [1, 1 :: int] [0, 1, 2] [0, 0] [1, - 1] 0 [- 1] [0] = Some ([- 2], [0], 0, 1) \<and>
   sparse_dot_topn_source sort_desc partial_sort_desc 1 1 [0, 2] [0, 1] [1, 1 :: int]
     [0, 1, 2] [0, 0] [1, - 1] 1 (- 1) [9, 9] [9] [9] = Some ([0, 1], [0], [0]) \<and>
   out_row [0, 1] [0] [0 :: int] 0 = [(0, 0)]"
proof -
  have v: "valid_input 1 2 1 [0, 2] [0, 1] [1, 1 :: int] [0, 1, 2] [0, 0] [1, - 1]" by code_simp
  have r: "room 1 [0, 2] [0, 1] [1, 1 :: int] [0, 1, 2] [0, 0] [1, - 1] 1 (- 1) [9, 9] [9] [9]" by code_simp
  have a: "accumulate [0, 2] [0, 1] [1, 1 :: int] [0, 1, 2] [0, 0] [1, - 1] 0 [- 1] [0] = Some ([- 2], [0], 0, 1)"
    by code_simp
  have t: "sparse_dot_topn_source sort_desc partial_sort_desc 1 1 [0, 2] [0, 1] [1, 1 :: int]
     [0, 1, 2] [0, 0] [1, - 1] 1 (- 1) [9, 9] [9] [9] = Some ([0, 1], [0], [0])" by code_simp
  have w: "out_row [0, 1] [0] [0 :: int] 0 = [(0, 0)]" by code_simp
  show ?thesis by (intro conjI v r a t w)
qed

text \<open>
  C9, amended: on a valid input with room in the output buffers, for every row \<open>i\<close> and every
  column \<open>k\<close> that the row reaches, the accumulation from the clean arrays links \<open>k\<close> into the
  chain (\<open>next[k]\<close> is no longer \<open>-1\<close>), the walk clears \<open>next[k]\<close> to \<open>-1\<close> and \<open>sums[k]\<close> to \<open>0\<close>,
  and if the accumulated value \<open>sums[k]\<close> is at or below \<open>lower_bound\<close>, or is exactly zero
  and \<open>lower_bound \<ge> 0\<close>, no candidate is pushed for \<open>k\<close> and \<open>k\<close> is not a column of
  output row \<open>i\<close>.
\<close>

theorem column_at_or_below_bound_is_reset_and_not_emitted:
  fixes Ax Bx :: "'v::{zero,plus,times,linorder} list"
  assumes "valid_input n_row n_inner n_col Ap Aj Ax Bp Bj Bx"
    and "std_sort srt" and "std_partial_sort psrt" and "0 \<le> ntop"
    and "room n_row Ap Aj Ax Bp Bj Bx ntop lower_bound Cp Cj Cx"
    and "0 \<le> i" and "i < n_row" and "k \<in> set (reach Ap Aj Bp Bj i)"
  shows "\<exists>next' sums head length' next'' sums' head' candidates Cp' Cj' Cx'.
    accumulate Ap Aj Ax Bp Bj Bx i (replicate (nat n_col) (- 1)) (replicate (nat n_col) 0) =
      Some (next', sums, head, length') \<and>
    next' ! nat k \<noteq> - 1 \<and>
    finalize_loop lower_bound 0 length' (next', sums, head, []) = Some (next'', sums', head', candidates) \<and>
    next'' ! nat k = - 1 \<and> sums' ! nat k = 0 \<and>
    sparse_dot_topn_source srt psrt n_row n_col Ap Aj Ax Bp Bj Bx ntop lower_bound Cp Cj Cx =
      Some (Cp', Cj', Cx') \<and>
    (sums ! nat k \<le> lower_bound \<or> sums ! nat k = 0 \<and> 0 \<le> lower_bound \<longrightarrow>
       k \<notin> index ` set candidates \<and> k \<notin> fst ` set (out_row Cp' Cj' Cx' i))"
proof -
  define R where "R = row_emitted srt psrt Ap Aj Ax Bp Bj Bx ntop lower_bound"
  define Cp' where "Cp' = blit Cp 0 (offsets R (nat n_row))"
  define Cj' where "Cj' = blit Cj 0 (map index (upto_rows R (nat n_row)))"
  define Cx' where "Cx' = blit Cx 0 (map val (upto_rows R (nat n_row)))"
  let ?kps = "row_products Ap Aj Ax Bp Bj Bx i"
  let ?cs = "row_candidates lower_bound ?kps"
  let ?n = "nat n_col"
  from assms(1) have A: "csr n_row n_inner Ap Aj Ax" and B: "csr n_inner (int ?n) Bp Bj Bx"
    by (simp_all add: valid_input_def)
  have keys: "\<forall>kp \<in> set ?kps. 0 \<le> fst kp \<and> fst kp < int ?n"
    by (rule row_products_keys[OF A B assms(6,7)])
  obtain next' sums head length' where
    f: "foldl touch (replicate ?n (- 1), replicate ?n 0, - 2, 0) ?kps = (next', sums, head, length')"
    by (cases "foldl touch (replicate ?n (- 1), replicate ?n (0 :: 'v), - 2, 0) ?kps") auto
  have acc: "accumulate Ap Aj Ax Bp Bj Bx i (replicate ?n (- 1)) (replicate ?n 0) =
      Some (next', sums, head, length')"
    using accumulate_foldl[OF A B assms(6,7), of "replicate ?n (- 1)" "replicate ?n 0"] f by simp
  have kc: "k \<in> set (columns ?kps)"
    using assms(8) arg_cong[OF map_fst_row_products, of set Ap Aj Ax Bp Bj Bx i]
    by (simp add: set_columns)
  then have k: "0 \<le> k" "k < int ?n" using keys by (auto simp: set_columns)
  from tracks_foldl[OF keys] f have ch: "chain next' head (columns ?kps)"
    and su: "sums ! nat k = total ?kps k"
    using k by (simp_all add: tracks_def)
  have c0: "\<forall>c \<in> set (columns ?kps). 0 \<le> c" using keys by (auto simp: set_columns)
  have linked: "next' ! nat k \<noteq> - 1" by (rule chain_marked[OF ch c0 kc])
  note w = walk_clean(2)[OF keys f, of lower_bound]
  from k have nk: "nat k < ?n" by linarith
  have cleared: "replicate ?n (- 1 :: int) ! nat k = - 1" "replicate ?n (0 :: 'v) ! nat k = 0"
    using nk by simp_all
  note o = out_row_result(1)[OF assms(2-5) R_def assms(6,7) Cp'_def Cj'_def Cx'_def]
  have out: "k \<notin> index ` set ?cs \<and> k \<notin> fst ` set (out_row Cp' Cj' Cx' i)"
    if "sums ! nat k \<le> lower_bound \<or> sums ! nat k = 0 \<and> 0 \<le> lower_bound"
  proof -
    from that have le: "sums ! nat k \<le> lower_bound" by auto
    have n1: "k \<notin> index ` set ?cs"
    proof
      assume "k \<in> index ` set ?cs"
      then obtain c where "c \<in> set ?cs" "index c = k" by auto
      then have "total ?kps k > lower_bound" by (auto simp: row_candidates_def)
      with le su show False by simp
    qed
    have "fst ` set (out_row Cp' Cj' Cx' i) = index ` set (R i)"
      unfolding o by (simp add: image_image pair_def)
    also have "\<dots> \<subseteq> index ` set ?cs"
      using row_emitted_facts(2)[OF assms(2-4) R_def, of i] by (rule image_mono)
    finally show ?thesis using n1 by blast
  qed
  from acc linked w cleared out topn_result[OF assms(1-5) R_def]
  show ?thesis unfolding Cp'_def Cj'_def Cx'_def by blast
qed

theorem column_at_or_below_bound_is_reset_and_not_emitted_witness:
  "valid_input 2 2 2 [0, 2, 3] [0, 1, 1] [1, 2, 3 :: int] [0, 1, 2] [0, 1] [1, 1] \<and>
   room 2 [0, 2, 3] [0, 1, 1] [1, 2, 3 :: int] [0, 1, 2] [0, 1] [1, 1] 2 1 [9, 9, 9] [9, 9, 9] [9, 9, 9] \<and>
   0 \<in> set (reach [0, 2, 3] [0, 1, 1] [0, 1, 2] [0, 1] 0) \<and>
   (\<exists>next' sums head length' next'' sums' head' candidates Cp' Cj' Cx'.
      accumulate [0, 2, 3] [0, 1, 1] [1, 2, 3 :: int] [0, 1, 2] [0, 1] [1, 1] 0
          (replicate (nat 2) (- 1)) (replicate (nat 2) 0) =
        Some (next', sums, head, length') \<and>
      next' ! nat 0 \<noteq> - 1 \<and>
      finalize_loop 1 0 length' (next', sums, head, []) = Some (next'', sums', head', candidates) \<and>
      next'' ! nat 0 = - 1 \<and> sums' ! nat 0 = 0 \<and>
      sparse_dot_topn_source sort_desc partial_sort_desc 2 2 [0, 2, 3] [0, 1, 1] [1, 2, 3 :: int]
          [0, 1, 2] [0, 1] [1, 1] 2 1 [9, 9, 9] [9, 9, 9] [9, 9, 9] =
        Some (Cp', Cj', Cx') \<and>
      (sums ! nat 0 \<le> 1 \<or> sums ! nat 0 = 0 \<and> (0 :: int) \<le> 1 \<longrightarrow>
         0 \<notin> index ` set candidates \<and> 0 \<notin> fst ` set (out_row Cp' Cj' Cx' 0))) \<and>
   accumulate [0, 2, 3] [0, 1, 1] [1, 2, 3 :: int] [0, 1, 2] [0, 1] [1, 1] 0 [- 1, - 1] [0, 0] =
     Some ([- 2, 0], [1, 2], 1, 2) \<and>
   sparse_dot_topn_source sort_desc partial_sort_desc 2 2 [0, 2, 3] [0, 1, 1] [1, 2, 3 :: int]
       [0, 1, 2] [0, 1] [1, 1] 2 1 [9, 9, 9] [9, 9, 9] [9, 9, 9] =
     Some ([0, 1, 2], [1, 1, 9], [2, 3, 9]) \<and>
   out_row [0, 1, 2] [1, 1, 9] [2, 3, 9 :: int] 0 = [(1, 2)]"
proof -
  have r: "room 2 [0, 2, 3] [0, 1, 1] [1, 2, 3 :: int] [0, 1, 2] [0, 1] [1, 1] 2 1 [9, 9, 9] [9, 9, 9] [9, 9, 9]"
    by code_simp
  have k: "0 \<in> set (reach [0, 2, 3] [0, 1, 1] [0, 1, 2] [0, 1] 0)" by code_simp
  have c: "\<exists>next' sums head length' next'' sums' head' candidates Cp' Cj' Cx'.
      accumulate [0, 2, 3] [0, 1, 1] [1, 2, 3 :: int] [0, 1, 2] [0, 1] [1, 1] 0
          (replicate (nat 2) (- 1)) (replicate (nat 2) 0) =
        Some (next', sums, head, length') \<and>
      next' ! nat 0 \<noteq> - 1 \<and>
      finalize_loop 1 0 length' (next', sums, head, []) = Some (next'', sums', head', candidates) \<and>
      next'' ! nat 0 = - 1 \<and> sums' ! nat 0 = 0 \<and>
      sparse_dot_topn_source sort_desc partial_sort_desc 2 2 [0, 2, 3] [0, 1, 1] [1, 2, 3 :: int]
          [0, 1, 2] [0, 1] [1, 1] 2 1 [9, 9, 9] [9, 9, 9] [9, 9, 9] =
        Some (Cp', Cj', Cx') \<and>
      (sums ! nat 0 \<le> 1 \<or> sums ! nat 0 = 0 \<and> (0 :: int) \<le> 1 \<longrightarrow>
         0 \<notin> index ` set candidates \<and> 0 \<notin> fst ` set (out_row Cp' Cj' Cx' 0))"
    by (rule column_at_or_below_bound_is_reset_and_not_emitted[OF scenario_valid std_sort_sort_desc
      std_partial_sort_partial_sort_desc _ r _ _ k]) simp_all
  have e1: "accumulate [0, 2, 3] [0, 1, 1] [1, 2, 3 :: int] [0, 1, 2] [0, 1] [1, 1] 0 [- 1, - 1] [0, 0] =
     Some ([- 2, 0], [1, 2], 1, 2)" by code_simp
  have e2: "sparse_dot_topn_source sort_desc partial_sort_desc 2 2 [0, 2, 3] [0, 1, 1] [1, 2, 3 :: int]
       [0, 1, 2] [0, 1] [1, 1] 2 1 [9, 9, 9] [9, 9, 9] [9, 9, 9] =
     Some ([0, 1, 2], [1, 1, 9], [2, 3, 9])" by code_simp
  have e3: "out_row [0, 1, 2] [1, 1, 9] [2, 3, 9 :: int] 0 = [(1, 2)]" by code_simp
  show ?thesis by (intro conjI scenario_valid r k c e1 e2 e3)
qed

text \<open>
  C10: on the same patterns the two entry points that store \<open>minmax_ntop\<close> disagree:
  \<open>sparse_dot_plus_minmax_topn_source\<close> stores 2, the width of row 1, and
  \<open>sparse_dot_only_minmax_topn_source\<close> stores 1, for the reason given at C3.
\<close>

theorem only_minmax_differs_from_plus_minmax:
  "valid_input 2 2 2 [0, 1, 2] [0, 1] [1, 1 :: int] [0, 1, 3] [0, 0, 1] [1, 1, 1] \<and>
   room 2 [0, 1, 2] [0, 1] [1, 1 :: int] [0, 1, 3] [0, 0, 1] [1, 1, 1] 2 0 [9, 9, 9] [9, 9, 9] [9, 9, 9] \<and>
   sparse_dot_plus_minmax_topn_source sort_desc partial_sort_desc 2 2 [0, 1, 2] [0, 1] [1, 1 :: int]
     [0, 1, 3] [0, 0, 1] [1, 1, 1] 2 0 [9, 9, 9] [9, 9, 9] [9, 9, 9] =
     Some ([0, 1, 3], [0, 0, 1], [1, 1, 1], 2) \<and>
   sparse_dot_only_minmax_topn_source 2 2 [0, 1, 2] [0, 1] [0, 1, 3] [0, 0, 1] = Some 1"
proof -
  have v: "valid_input 2 2 2 [0, 1, 2] [0, 1] [1, 1 :: int] [0, 1, 3] [0, 0, 1] [1, 1, 1]" by code_simp
  have r: "room 2 [0, 1, 2] [0, 1] [1, 1 :: int] [0, 1, 3] [0, 0, 1] [1, 1, 1] 2 0 [9, 9, 9] [9, 9, 9] [9, 9, 9]"
    by code_simp
  have p: "sparse_dot_plus_minmax_topn_source sort_desc partial_sort_desc 2 2 [0, 1, 2] [0, 1] [1, 1 :: int]
     [0, 1, 3] [0, 0, 1] [1, 1, 1] 2 0 [9, 9, 9] [9, 9, 9] [9, 9, 9] =
     Some ([0, 1, 3], [0, 0, 1], [1, 1, 1], 2)" by code_simp
  have t: "sparse_dot_only_minmax_topn_source 2 2 [0, 1, 2] [0, 1] [0, 1, 3] [0, 0, 1] = Some 1"
    by code_simp
  from v r p t show ?thesis by simp
qed

end
